theory Spec2Isabelle
  imports Main "HOL-Library.Multiset"
begin

section \<open>Data model of \<^verbatim>\<open>src/todo/TodoList.js\<close>\<close>

text \<open>
  The JSDoc typedefs of the file: a \<^verbatim>\<open>Label\<close> is one of four colour names, a
  \<^verbatim>\<open>Filter\<close> holds the search words and an optional label, an \<^verbatim>\<open>Item\<close> holds
  \<^verbatim>\<open>key\<close>, \<^verbatim>\<open>order\<close>, \<^verbatim>\<open>description\<close>, \<^verbatim>\<open>status\<close> and \<^verbatim>\<open>labels\<close>.
  Keys are JavaScript numbers used as integer identifiers; they are modelled as \<open>int\<close>.
  The fields \<^verbatim>\<open>key\<close> and \<^verbatim>\<open>order\<close> of an item are called \<open>item_key\<close> and
  \<open>item_order\<close>, because the entries of the ordering have a \<^verbatim>\<open>key\<close> of their own.
  A string is the list of its code units; the type \<open>'c\<close> of code units is left open, so
  that what is proved holds for every string.
\<close>

datatype Label = red | green | blue | yellow

record 'c Item =
  item_key :: int
  item_order :: int
  description :: "'c list"
  status :: bool
  labels :: "Label list"

record 'c Filter =
  words :: "'c list list"
  label :: "Label option"

text \<open>
  An element of the \<^verbatim>\<open>ordering\<close> array is an object \<^verbatim>\<open>{ key, draggable }\<close>.
\<close>

record entry =
  key :: int
  draggable :: bool

text \<open>
  What a slot of a JavaScript array can hold in this component: \<^verbatim>\<open>undefined\<close>
  (what \<^verbatim>\<open>ordering[oldIndex]\<close> reads when \<^verbatim>\<open>oldIndex\<close> is \<open>-1\<close>), an object
  \<^verbatim>\<open>{ draggable }\<close> with no \<^verbatim>\<open>key\<close> (what \<^verbatim>\<open>{ ...undefined, draggable: value }\<close>
  builds), or a proper entry.
\<close>

datatype slot = Undefined | Keyless bool | Entry entry

text \<open>
  An array is its sequence of elements together with the property named \<^verbatim>\<open>-1\<close>:
  \<^verbatim>\<open>newOrdering[index] = ...\<close> with \<^verbatim>\<open>index\<close> equal to \<open>-1\<close> does not touch any
  element, it sets that property, and \<^verbatim>\<open>ordering[-1]\<close> reads it back. The array methods
  (\<^verbatim>\<open>slice\<close>, \<^verbatim>\<open>concat\<close>, \<^verbatim>\<open>findIndex\<close>, \<^verbatim>\<open>every\<close>, \<^verbatim>\<open>map\<close>, spread) see the
  elements only, and the arrays they build do not have the property.
\<close>

record jsarray =
  elems :: "slot list"
  minus1 :: slot

text \<open>
  Reading \<^verbatim>\<open>ord.key\<close> when \<^verbatim>\<open>ord\<close> is \<^verbatim>\<open>undefined\<close> throws a \<^verbatim>\<open>TypeError\<close>.
\<close>

datatype error = TypeError

text \<open>
  The state of one \<^verbatim>\<open>TodoSection\<close>: the two \<^verbatim>\<open>useState\<close> cells. \<^verbatim>\<open>dragging\<close>
  is \<^verbatim>\<open>null\<close> (\<open>None\<close>) or the key of the row whose \<^verbatim>\<open>onDragStart\<close> fired.
\<close>

record TodoSection =
  ordering :: jsarray
  dragging :: "int option"

section \<open>Array primitives\<close>

definition new_array :: "slot list \<Rightarrow> jsarray" where
  "new_array xs = \<lparr>elems = xs, minus1 = Undefined\<rparr>"

text \<open>
  \<^verbatim>\<open>Array.prototype.slice(start, end)\<close>: a negative index counts from the end, both
  indices are clamped to the array, and an empty range gives the empty array.
\<close>

definition rel_index :: "int \<Rightarrow> int \<Rightarrow> int" where
  "rel_index len i = (if i < 0 then max (len + i) 0 else min i len)"

definition slice :: "'a list \<Rightarrow> int \<Rightarrow> int \<Rightarrow> 'a list" where
  "slice xs start stop =
     (let len = int (length xs);
          k = rel_index len start;
          final = rel_index len stop
      in take (nat (final - k)) (drop (nat k) xs))"

text \<open>\<^verbatim>\<open>slice(start)\<close> with the end left out runs to the end of the array.\<close>

definition slice_from :: "'a list \<Rightarrow> int \<Rightarrow> 'a list" where
  "slice_from xs start = slice xs start (int (length xs))"

text \<open>
  \<^verbatim>\<open>ordering[i]\<close>: the element at an index in range, the property \<^verbatim>\<open>-1\<close> at
  \<open>-1\<close>, and \<^verbatim>\<open>undefined\<close> anywhere else.
\<close>

definition index_read :: "jsarray \<Rightarrow> int \<Rightarrow> slot" where
  "index_read a i =
     (if 0 \<le> i \<and> i < int (length (elems a)) then elems a ! nat i
      else if i = - 1 then minus1 a
      else Undefined)"

text \<open>
  \<^verbatim>\<open>ordering.findIndex((ord) => ord.key === key)\<close>: the index of the first element
  whose key is \<^verbatim>\<open>key\<close>, \<open>-1\<close> when there is none; the callback throws at an
  \<^verbatim>\<open>undefined\<close> element, and an object without \<^verbatim>\<open>key\<close> never matches a number.
\<close>

fun findIndex_from :: "int \<Rightarrow> slot list \<Rightarrow> int \<Rightarrow> error + int" where
  "findIndex_from i [] k = Inr (- 1)"
| "findIndex_from i (Undefined # xs) k = Inl TypeError"
| "findIndex_from i (Keyless b # xs) k = findIndex_from (i + 1) xs k"
| "findIndex_from i (Entry e # xs) k =
     (if key e = k then Inr i else findIndex_from (i + 1) xs k)"

definition findIndex :: "slot list \<Rightarrow> int \<Rightarrow> error + int" where
  "findIndex xs k = findIndex_from 0 xs k"

text \<open>
  \<^verbatim>\<open>ordering.every((ord) => item.key !== ord.key)\<close>, stopping at the first element
  that has the key.
\<close>

fun every_differs :: "slot list \<Rightarrow> int \<Rightarrow> error + bool" where
  "every_differs [] k = Inr True"
| "every_differs (Undefined # xs) k = Inl TypeError"
| "every_differs (Keyless b # xs) k = every_differs xs k"
| "every_differs (Entry e # xs) k =
     (if k \<noteq> key e then every_differs xs k else Inr False)"

section \<open>The order store of \<^verbatim>\<open>TodoSection\<close>\<close>

text \<open>
  The \<^verbatim>\<open>useState\<close> initialiser (lines 20 to 27). \<^verbatim>\<open>cookies?.get(order_cookie)\<close>
  is the persisted key sequence; \<open>None\<close> stands for a falsy result (no cookie context,
  or nothing stored). An array, also the empty one, is truthy.
\<close>

definition init_ordering :: "int list option \<Rightarrow> 'c Item list \<Rightarrow> jsarray" where
  "init_ordering persisted list =
     (case persisted of
        Some ks \<Rightarrow> new_array (map (\<lambda>k. Entry \<lparr>key = k, draggable = False\<rparr>) ks)
      | None \<Rightarrow>
          new_array (map (\<lambda>item. Entry \<lparr>key = item_key item, draggable = False\<rparr>) list))"

text \<open>
  The \<^verbatim>\<open>useLayoutEffect\<close> on \<^verbatim>\<open>props.list\<close> (lines 35 to 45): first
  \<^verbatim>\<open>props.list.filter((item) => ordering.every(...))\<close>, then \<^verbatim>\<open>map\<close> to fresh
  entries, then \<^verbatim>\<open>ordering.concat\<close>.
\<close>

fun unseen_items :: "slot list \<Rightarrow> 'c Item list \<Rightarrow> error + 'c Item list" where
  "unseen_items ords [] = Inr []"
| "unseen_items ords (item # items) =
     (case every_differs ords (item_key item) of
        Inl e \<Rightarrow> Inl e
      | Inr keep \<Rightarrow>
          (case unseen_items ords items of
             Inl e \<Rightarrow> Inl e
           | Inr rest \<Rightarrow> Inr (if keep then item # rest else rest)))"

definition reconcile :: "jsarray \<Rightarrow> 'c Item list \<Rightarrow> error + jsarray" where
  "reconcile ords list =
     (case unseen_items (elems ords) list of
        Inl e \<Rightarrow> Inl e
      | Inr items \<Rightarrow>
          Inr (new_array (elems ords
                 @ map (\<lambda>item. Entry \<lparr>key = item_key item, draggable = False\<rparr>) items)))"

text \<open>
  \<^verbatim>\<open>setDraggable = setOrderableField('draggable')\<close> (lines 51 to 60), the only use of
  \<^verbatim>\<open>setOrderableField\<close>. \<open>spread_draggable\<close> is the object
  \<^verbatim>\<open>{ ...ordering[index], draggable: value }\<close>.
\<close>

fun spread_draggable :: "slot \<Rightarrow> bool \<Rightarrow> slot" where
  "spread_draggable Undefined v = Keyless v"
| "spread_draggable (Keyless b) v = Keyless v"
| "spread_draggable (Entry e) v = Entry (e\<lparr>draggable := v\<rparr>)"

definition setDraggable :: "jsarray \<Rightarrow> int \<Rightarrow> bool \<Rightarrow> error + jsarray" where
  "setDraggable ords k v =
     (case findIndex (elems ords) k of
        Inl e \<Rightarrow> Inl e
      | Inr index \<Rightarrow>
          (let obj = spread_draggable (index_read ords index) v
           in Inr (if index < 0 then \<lparr>elems = elems ords, minus1 = obj\<rparr>
                   else new_array ((elems ords)[nat index := obj]))))"

text \<open>\<^verbatim>\<open>getOrder\<close> (line 66).\<close>

definition getOrder :: "jsarray \<Rightarrow> int \<Rightarrow> error + int" where
  "getOrder ords k = findIndex (elems ords) k"

text \<open>
  \<^verbatim>\<open>setOrder\<close> (lines 71 to 89). A handler runs on the committed state, so the
  \<^verbatim>\<open>ordering\<close> that \<^verbatim>\<open>findIndex\<close> searches and the \<^verbatim>\<open>ordering\<close> the updater
  receives are the same array. When \<^verbatim>\<open>newIndex\<close> equals \<^verbatim>\<open>oldIndex\<close> neither branch
  runs and the state is left as it is.
\<close>

definition setOrder :: "jsarray \<Rightarrow> int \<Rightarrow> int \<Rightarrow> error + jsarray" where
  "setOrder ords k newIndex =
     (case findIndex (elems ords) k of
        Inl e \<Rightarrow> Inl e
      | Inr oldIndex \<Rightarrow>
          Inr (if newIndex < oldIndex then
                 new_array (slice (elems ords) 0 newIndex
                   @ [index_read ords oldIndex]
                   @ slice (elems ords) newIndex oldIndex
                   @ slice_from (elems ords) (oldIndex + 1))
               else if newIndex > oldIndex then
                 new_array (slice (elems ords) 0 oldIndex
                   @ slice (elems ords) (oldIndex + 1) (newIndex + 1)
                   @ [index_read ords oldIndex]
                   @ slice_from (elems ords) (newIndex + 1))
               else ords))"

section \<open>The drag handlers of a row\<close>

text \<open>
  \<^verbatim>\<open>if (dragging)\<close>: \<^verbatim>\<open>null\<close> is falsy, and so is the number \<open>0\<close>.
\<close>

definition truthy :: "int option \<Rightarrow> bool" where
  "truthy d = (case d of None \<Rightarrow> False | Some k \<Rightarrow> k \<noteq> 0)"

text \<open>Line 119: \<^verbatim>\<open>onDragStart={() => setDragging(item.key)}\<close>.\<close>

definition onDragStart :: "TodoSection \<Rightarrow> int \<Rightarrow> error + TodoSection" where
  "onDragStart st k = Inr (st\<lparr>dragging := Some k\<rparr>)"

text \<open>Lines 120 to 123: \<^verbatim>\<open>setDragging(null); setDraggable(item.key, false)\<close>.\<close>

definition onDragEnd :: "TodoSection \<Rightarrow> int \<Rightarrow> error + TodoSection" where
  "onDragEnd st k =
     (case setDraggable (ordering st) k False of
        Inl e \<Rightarrow> Inl e
      | Inr ords' \<Rightarrow> Inr \<lparr>ordering = ords', dragging = None\<rparr>)"

text \<open>
  Lines 124 to 130: inside \<^verbatim>\<open>if (dragging)\<close>, \<^verbatim>\<open>getOrder(item.key)\<close> and then
  \<^verbatim>\<open>setOrder(dragging, newIndex)\<close>.
\<close>

definition onDragEnter :: "TodoSection \<Rightarrow> int \<Rightarrow> error + TodoSection" where
  "onDragEnter st k =
     (case dragging st of
        None \<Rightarrow> Inr st
      | Some d \<Rightarrow>
          if truthy (Some d) then
            (case getOrder (ordering st) k of
               Inl e \<Rightarrow> Inl e
             | Inr newIndex \<Rightarrow>
                 (case setOrder (ordering st) d newIndex of
                    Inl e \<Rightarrow> Inl e
                  | Inr ords' \<Rightarrow> Inr (st\<lparr>ordering := ords'\<rparr>)))
          else Inr st)"

text \<open>Line 141: \<^verbatim>\<open>onDragDown={() => setDraggable(item.key, true)}\<close>.\<close>

definition onDragDown :: "TodoSection \<Rightarrow> int \<Rightarrow> error + TodoSection" where
  "onDragDown st k =
     (case setDraggable (ordering st) k True of
        Inl e \<Rightarrow> Inl e
      | Inr ords' \<Rightarrow> Inr (st\<lparr>ordering := ords'\<rparr>))"

text \<open>Lines 142 to 146: \<^verbatim>\<open>if (!dragging) { setDraggable(item.key, false) }\<close>.\<close>

definition onDragUp :: "TodoSection \<Rightarrow> int \<Rightarrow> error + TodoSection" where
  "onDragUp st k =
     (if \<not> truthy (dragging st) then
        (case setDraggable (ordering st) k False of
           Inl e \<Rightarrow> Inl e
         | Inr ords' \<Rightarrow> Inr (st\<lparr>ordering := ords'\<rparr>))
      else Inr st)"

text \<open>A change of \<^verbatim>\<open>props.list\<close> runs the reconciliation effect.\<close>

definition onListChange :: "TodoSection \<Rightarrow> 'c Item list \<Rightarrow> error + TodoSection" where
  "onListChange st list =
     (case reconcile (ordering st) list of
        Inl e \<Rightarrow> Inl e
      | Inr ords' \<Rightarrow> Inr (st\<lparr>ordering := ords'\<rparr>))"

text \<open>
  The events a section receives, each handled to completion before the next one, and a
  run of the section over a list of events. A thrown error ends the run.
\<close>

datatype 'c event =
    DragDown int
  | DragUp int
  | DragStart int
  | DragEnter int
  | DragEnd int
  | ListChange "'c Item list"

fun handle :: "TodoSection \<Rightarrow> 'c event \<Rightarrow> error + TodoSection" where
  "handle st (DragDown k) = onDragDown st k"
| "handle st (DragUp k) = onDragUp st k"
| "handle st (DragStart k) = onDragStart st k"
| "handle st (DragEnter k) = onDragEnter st k"
| "handle st (DragEnd k) = onDragEnd st k"
| "handle st (ListChange list) = onListChange st list"

fun run :: "TodoSection \<Rightarrow> 'c event list \<Rightarrow> error + TodoSection" where
  "run st [] = Inr st"
| "run st (ev # evs) =
     (case handle st ev of Inl e \<Rightarrow> Inl e | Inr st' \<Rightarrow> run st' evs)"

text \<open>
  A section as it mounts: the initial ordering, the layout effect run once on the first
  \<^verbatim>\<open>props.list\<close>, and no drag.
\<close>

definition mount :: "int list option \<Rightarrow> 'c Item list \<Rightarrow> error + TodoSection" where
  "mount persisted list =
     onListChange \<lparr>ordering = init_ordering persisted list, dragging = None\<rparr> list"

section \<open>The rendered rows\<close>








section \<open>The filter stage of \<^verbatim>\<open>TodoList\<close>\<close>

text \<open>
  \<^verbatim>\<open>String.prototype.toLowerCase\<close> belongs to the language, not to the repository.
  It is a parameter \<open>toLowerCase\<close> of the functions that call it, so that what is
  proved of them holds for the function of the language, whatever it does to each
  string.
\<close>

text \<open>
  \<^verbatim>\<open>desc.includes(word)\<close>: \<^verbatim>\<open>word\<close> occurs in \<^verbatim>\<open>desc\<close> as a contiguous run, at some
  position; the empty word occurs in every string.
\<close>

fun startsWith :: "'c list \<Rightarrow> 'c list \<Rightarrow> bool" where
  "startsWith s [] = True"
| "startsWith [] (c # w) = False"
| "startsWith (d # s) (c # w) = (d = c \<and> startsWith s w)"

fun includes_str :: "'c list \<Rightarrow> 'c list \<Rightarrow> bool" where
  "includes_str [] w = (w = [])"
| "includes_str (d # s) w = (startsWith (d # s) w \<or> includes_str s w)"

text \<open>
  The two \<^verbatim>\<open>filter\<close> callbacks of lines 164 to 171, and \<^verbatim>\<open>filtered\<close> itself: first by
  label, then by search words.
\<close>

definition by_label :: "'c Filter \<Rightarrow> 'c Item \<Rightarrow> bool" where
  "by_label f item =
     (case label f of None \<Rightarrow> True | Some l \<Rightarrow> l \<in> set (labels item))"

definition by_search :: "('c list \<Rightarrow> 'c list) \<Rightarrow> 'c Filter \<Rightarrow> 'c Item \<Rightarrow> bool" where
  "by_search toLowerCase f item =
     (let desc = toLowerCase (description item)
      in list_all (\<lambda>word. includes_str desc word) (words f))"

definition filtered ::
  "('c list \<Rightarrow> 'c list) \<Rightarrow> 'c Item list \<Rightarrow> 'c Filter \<Rightarrow> 'c Item list" where
  "filtered toLowerCase list f = filter (by_search toLowerCase f) (filter (by_label f) list)"

text \<open>
  \<^verbatim>\<open>allStatus\<close> (lines 176 to 187): the first component of a \<^verbatim>\<open>reduce\<close> over the
  filtered items, from \<^verbatim>\<open>[true, null]\<close>.
\<close>

definition status_step :: "bool \<times> bool option \<Rightarrow> 'c Item \<Rightarrow> bool \<times> bool option" where
  "status_step acc item =
     (case acc of
        (all, prev) \<Rightarrow>
          if \<not> all then (False, None)
          else (case prev of
                  None \<Rightarrow> (all, Some (status item))
                | Some p \<Rightarrow> (p = status item, Some (status item))))"

definition allStatus :: "'c Item list \<Rightarrow> bool" where
  "allStatus items = fst (foldl status_step (True, None) items)"

section \<open>Notions of the specification\<close>

text \<open>
  The words the specification uses about a store, written over the model: whether a
  slot holds a proper entry, the entries a store holds, and its identifiers. \<open>store es\<close>
  is an array whose elements are the entries \<open>es\<close>, and \<open>fresh k\<close> is the entry that
  the initialiser and the reconciliation build for the key \<open>k\<close>.
\<close>

fun is_entry :: "slot \<Rightarrow> bool" where
  "is_entry (Entry e) = True"
| "is_entry s = False"

fun slot_entries :: "slot list \<Rightarrow> entry list" where
  "slot_entries [] = []"
| "slot_entries (Entry e # xs) = e # slot_entries xs"
| "slot_entries (s # xs) = slot_entries xs"

definition slot_keys :: "slot list \<Rightarrow> int list" where
  "slot_keys xs = map key (slot_entries xs)"

definition store :: "entry list \<Rightarrow> jsarray" where
  "store es = new_array (map Entry es)"

definition fresh :: "int \<Rightarrow> entry" where
  "fresh k = \<lparr>key = k, draggable = False\<rparr>"

text \<open>
  A single-element move, in the words of the specification: take the element at
  position \<open>p\<close> out, then put it back so that it stands at position \<open>t\<close>.
\<close>

definition remove_at :: "nat \<Rightarrow> 'a list \<Rightarrow> 'a list" where
  "remove_at p xs = take p xs @ drop (Suc p) xs"

definition insert_at :: "nat \<Rightarrow> 'a \<Rightarrow> 'a list \<Rightarrow> 'a list" where
  "insert_at t x xs = take t xs @ x # drop t xs"

text \<open>
  A word is a case-insensitive substring of a description when it occurs in it once both
  are put in lower case.
\<close>

definition ci_substring :: "('c list \<Rightarrow> 'c list) \<Rightarrow> 'c list \<Rightarrow> 'c list \<Rightarrow> bool" where
  "ci_substring toLowerCase word desc = includes_str (toLowerCase desc) (toLowerCase word)"

text \<open>
  What \<^verbatim>\<open>toLowerCase\<close> does to a string of ASCII characters: the letters \<^verbatim>\<open>A\<close> to
  \<^verbatim>\<open>Z\<close> (codes 65 to 90) move to \<^verbatim>\<open>a\<close> to \<^verbatim>\<open>z\<close>, every other character stays.
  It serves to evaluate examples whose strings are ASCII.
\<close>

definition ascii_lower :: "char \<Rightarrow> char" where
  "ascii_lower c =
     (let n = (of_char c :: nat) in if 65 \<le> n \<and> n \<le> 90 then char_of (n + 32) else c)"

definition ascii_toLowerCase :: "string \<Rightarrow> string" where
  "ascii_toLowerCase s = map ascii_lower s"

text \<open>
  The invariant of a section: every slot holds an entry, the identifiers are unique, at
  most one entry is draggable, and while a drag is recorded the dragged row is in the
  store and is the only one that may be draggable.
\<close>

definition section_inv :: "TodoSection \<Rightarrow> bool" where
  "section_inv st =
     (list_all is_entry (elems (ordering st))
      \<and> (let es = slot_entries (elems (ordering st))
         in distinct (map key es)
            \<and> length (filter draggable es) \<le> 1
            \<and> (case dragging st of
                 None \<Rightarrow> True
               | Some d \<Rightarrow>
                   d \<in> set (map key es)
                   \<and> list_all (\<lambda>e. \<not> draggable e \<or> key e = d) es)))"

text \<open>
  For the proofs, a condition on the state for each event, under which its handler keeps
  the invariant: a pointer goes down while no drag is recorded and no row is draggable,
  a drag starts on a row whose entry is draggable (line 118 hands the flag to the
  \<^verbatim>\<open>draggable\<close> attribute of the row), a drag enters a row of the store, and an item
  list has unique keys. A list of events conforms when each event meets its condition in
  the state it arrives in; after a thrown error nothing more is asked of the list.
\<close>

fun enabled :: "TodoSection \<Rightarrow> 'c event \<Rightarrow> bool" where
  "enabled st (DragDown k) =
     (dragging st = None
      \<and> list_all (\<lambda>e. \<not> draggable e) (slot_entries (elems (ordering st))))"
| "enabled st (DragUp k) = True"
| "enabled st (DragStart k) =
     (\<lparr>key = k, draggable = True\<rparr> \<in> set (slot_entries (elems (ordering st))))"
| "enabled st (DragEnter k) = (k \<in> set (slot_keys (elems (ordering st))))"
| "enabled st (DragEnd k) = True"
| "enabled st (ListChange list) = distinct (map item_key list)"

fun conforms :: "TodoSection \<Rightarrow> 'c event list \<Rightarrow> bool" where
  "conforms st [] = True"
| "conforms st (ev # evs) =
     (enabled st ev
      \<and> (case handle st ev of Inl e \<Rightarrow> True | Inr st' \<Rightarrow> conforms st' evs))"

text \<open>
  The three events of a drag session, as the specification names them. A drag begins on
  a row with the pointer going down on its handle (\<^verbatim>\<open>onDragDown\<close>) and then the
  \<^verbatim>\<open>dragstart\<close> of the row (\<^verbatim>\<open>onDragStart\<close>); a drag enters a row
  (\<^verbatim>\<open>onDragEnter\<close>); a drag ends on a row (\<^verbatim>\<open>onDragEnd\<close>).
\<close>

datatype gesture = BeginDrag int | EnterRow int | EndDrag int

fun gesture_row :: "gesture \<Rightarrow> int" where
  "gesture_row (BeginDrag k) = k"
| "gesture_row (EnterRow k) = k"
| "gesture_row (EndDrag k) = k"

fun gesture_events :: "gesture \<Rightarrow> 'c event list" where
  "gesture_events (BeginDrag k) = [DragDown k, DragStart k]"
| "gesture_events (EnterRow k) = [DragEnter k]"
| "gesture_events (EndDrag k) = [DragEnd k]"

definition session_events :: "gesture list \<Rightarrow> 'c event list" where
  "session_events gs = concat (map gesture_events gs)"

text \<open>
  The order of these events that the user interface keeps, told from the events alone:
  \<open>a\<close> is the row whose drag is under way, \<open>None\<close> when no drag is. A drag begins
  only when none is under way (the one before has ended), and the end of a drag under
  way comes on the dragged row. \<open>after_gesture\<close> is the drag under way after an event.
\<close>

fun allowed :: "int option \<Rightarrow> gesture \<Rightarrow> bool" where
  "allowed None (BeginDrag k) = True"
| "allowed (Some d) (BeginDrag k) = False"
| "allowed a (EnterRow k) = True"
| "allowed None (EndDrag k) = True"
| "allowed (Some d) (EndDrag k) = (k = d)"

fun after_gesture :: "int option \<Rightarrow> gesture \<Rightarrow> int option" where
  "after_gesture a (BeginDrag k) = Some k"
| "after_gesture a (EnterRow k) = a"
| "after_gesture a (EndDrag k) = None"

fun ordered :: "int option \<Rightarrow> gesture list \<Rightarrow> bool" where
  "ordered a [] = True"
| "ordered a (g # gs) = (allowed a g \<and> ordered (after_gesture a g) gs)"

text \<open>
  The state of a section agrees with the drag under way \<open>a\<close>: the invariant holds,
  \<^verbatim>\<open>dragging\<close> is \<open>a\<close>, and while no drag is under way no entry is draggable.
\<close>

definition agrees :: "int option \<Rightarrow> TodoSection \<Rightarrow> bool" where
  "agrees a st =
     (section_inv st \<and> dragging st = a
      \<and> (a = None \<longrightarrow>
           list_all (\<lambda>e. \<not> draggable e) (slot_entries (elems (ordering st)))))"

section \<open>Stores whose slots all hold entries\<close>

lemma entries_of_slots: "list_all is_entry xs \<Longrightarrow> \<exists>es. xs = map Entry es"
proof (induction xs)
  case Nil
  then show ?case by simp
next
  case (Cons s xs)
  then obtain es where "xs = map Entry es" by auto
  moreover from Cons.prems obtain e where "s = Entry e" by (cases s) auto
  ultimately have "s # xs = map Entry (e # es)" by simp
  then show ?case by (rule exI)
qed

lemma slot_entries_entries [simp]: "slot_entries (map Entry es) = es"
  by (induction es) auto

lemma slot_keys_entries [simp]: "slot_keys (map Entry es) = map key es"
  by (simp add: slot_keys_def)

lemma all_entries [simp]: "list_all is_entry (map Entry es)"
  by (induction es) auto

lemma findIndex_from_absent:
  "k \<notin> key ` set es \<Longrightarrow> findIndex_from i (map Entry es) k = Inr (- 1)"
  by (induction es arbitrary: i) auto

lemma findIndex_from_present:
  "k \<in> key ` set es \<Longrightarrow>
   \<exists>p<length es. findIndex_from i (map Entry es) k = Inr (i + int p)
       \<and> key (es ! p) = k \<and> (\<forall>q<p. key (es ! q) \<noteq> k)"
proof (induction es arbitrary: i)
  case Nil
  then show ?case by simp
next
  case (Cons e es)
  show ?case
  proof (cases "key e = k")
    case True
    then have "findIndex_from i (map Entry (e # es)) k = Inr (i + int 0)" by simp
    with True show ?thesis by (intro exI[of _ 0]) simp
  next
    case False
    with Cons.prems have "k \<in> key ` set es" by auto
    from Cons.IH[OF this, of "i + 1"] obtain p where p: "p < length es"
      "findIndex_from (i + 1) (map Entry es) k = Inr (i + 1 + int p)"
      "key (es ! p) = k" "\<forall>q<p. key (es ! q) \<noteq> k" by blast
    have "\<forall>q<Suc p. key ((e # es) ! q) \<noteq> k"
      using False p(4) by (auto simp: nth_Cons split: nat.splits)
    with p False show ?thesis by (intro exI[of _ "Suc p"]) simp
  qed
qed

lemma every_differs_entries:
  "every_differs (map Entry es) k = Inr (k \<notin> key ` set es)"
  by (induction es) auto

lemma unseen_items_entries:
  "unseen_items (map Entry es) list
     = Inr (filter (\<lambda>item. item_key item \<notin> key ` set es) list)"
  by (induction list) (auto simp: every_differs_entries)

lemma reconcile_entries:
  "elems S = map Entry es \<Longrightarrow>
   reconcile S list
     = Inr (store (es @ map (\<lambda>item. fresh (item_key item))
                        (filter (\<lambda>item. item_key item \<notin> key ` set es) list)))"
  by (simp add: reconcile_def unseen_items_entries store_def fresh_def comp_def)

section \<open>Slices and single-element moves\<close>

lemma slice_nonneg:
  assumes "0 \<le> a" "0 \<le> b"
  shows "slice xs a b = take (nat b - nat a) (drop (nat a) xs)"
proof (cases "a < int (length xs)")
  case False
  then have "drop (nat a) xs = []" by simp
  moreover from False assms have "slice xs a b = take (nat (rel_index (int (length xs)) b - int (length xs))) []"
    by (simp add: slice_def rel_index_def Let_def)
  ultimately show ?thesis by simp
next
  case True
  show ?thesis
  proof (cases "b \<le> int (length xs)")
    case True
    have "nat (b - a) = nat b - nat a" using assms by linarith
    with True \<open>a < int (length xs)\<close> assms show ?thesis
      by (simp add: slice_def rel_index_def Let_def)
  next
    case False
    then have "length (drop (nat a) xs) \<le> nat b - nat a" using assms by simp
    then have "take (nat b - nat a) (drop (nat a) xs) = drop (nat a) xs" by simp
    moreover have "take (nat (int (length xs) - a)) (drop (nat a) xs) = drop (nat a) xs"
      using assms by simp
    ultimately show ?thesis using False \<open>a < int (length xs)\<close> assms
      by (simp add: slice_def rel_index_def Let_def)
  qed
qed

lemma slice_from_nonneg: "0 \<le> a \<Longrightarrow> slice_from xs a = drop (nat a) xs"
  by (simp add: slice_from_def slice_nonneg)

lemma index_read_in_range:
  "p < length (elems S) \<Longrightarrow> index_read S (int p) = elems S ! p"
  by (simp add: index_read_def)

lemma insert_remove_before:
  assumes "t < p" "p < length xs"
  shows "insert_at t (xs ! p) (remove_at p xs)
           = take t xs @ [xs ! p] @ take (p - t) (drop t xs) @ drop (Suc p) xs"
proof -
  have "take t (remove_at p xs) = take t xs"
    using assms by (simp add: remove_at_def min_def)
  moreover have "drop t (remove_at p xs) = take (p - t) (drop t xs) @ drop (Suc p) xs"
    using assms by (simp add: remove_at_def drop_take)
  ultimately show ?thesis by (simp add: insert_at_def)
qed

lemma insert_remove_after:
  assumes "p < t" "p < length xs"
  shows "insert_at t (xs ! p) (remove_at p xs)
           = take p xs @ take (t - p) (drop (Suc p) xs) @ [xs ! p] @ drop (Suc t) xs"
proof -
  have "take t (remove_at p xs) = take p xs @ take (t - p) (drop (Suc p) xs)"
    using assms by (simp add: remove_at_def min_def)
  moreover have "drop t (remove_at p xs) = drop (Suc t) xs"
    using assms by (simp add: remove_at_def)
  ultimately show ?thesis by (simp add: insert_at_def)
qed

lemma insert_remove_same:
  "p < length xs \<Longrightarrow> insert_at p (xs ! p) (remove_at p xs) = xs"
  by (simp add: insert_at_def remove_at_def id_take_nth_drop[symmetric])

lemma mset_remove_at:
  "p < length xs \<Longrightarrow> add_mset (xs ! p) (mset (remove_at p xs)) = mset xs"
proof -
  assume "p < length xs"
  then have "xs = take p xs @ xs ! p # drop (Suc p) xs" by (rule id_take_nth_drop)
  then have "mset xs = mset (take p xs @ xs ! p # drop (Suc p) xs)" by simp
  then show ?thesis by (simp add: remove_at_def)
qed

lemma mset_insert_at: "mset (insert_at t x xs) = add_mset x (mset xs)"
proof -
  have "mset (take t xs) + mset (drop t xs) = mset xs"
    by (metis append_take_drop_id mset_append)
  then show ?thesis by (simp add: insert_at_def)
qed

lemma mset_reinsert:
  "p < length xs \<Longrightarrow> mset (insert_at t (xs ! p) (remove_at p xs)) = mset xs"
  by (simp add: mset_insert_at mset_remove_at)

section \<open>\<^verbatim>\<open>findIndex\<close>, \<^verbatim>\<open>setOrder\<close> and \<^verbatim>\<open>setDraggable\<close> on entries\<close>

lemma findIndex_absent:
  "k \<notin> key ` set es \<Longrightarrow> findIndex (map Entry es) k = Inr (- 1)"
  by (simp add: findIndex_def findIndex_from_absent)

lemma findIndex_present:
  "k \<in> key ` set es \<Longrightarrow>
   \<exists>p<length es. findIndex (map Entry es) k = Inr (int p)
       \<and> key (es ! p) = k \<and> (\<forall>q<p. key (es ! q) \<noteq> k)"
  using findIndex_from_present[of k es 0] by (simp add: findIndex_def)

lemma findIndex_first:
  assumes "p < length es" "key (es ! p) = k" "\<forall>q<p. key (es ! q) \<noteq> k"
  shows "findIndex (map Entry es) k = Inr (int p)"
proof -
  from assms(1,2) have "k \<in> key ` set es" by (metis imageI nth_mem)
  from findIndex_present[OF this] obtain p' where p': "p' < length es"
    "findIndex (map Entry es) k = Inr (int p')" "key (es ! p') = k"
    "\<forall>q<p'. key (es ! q) \<noteq> k" by blast
  have "p' = p"
  proof (rule ccontr)
    assume "p' \<noteq> p"
    then consider "p' < p" | "p < p'" by linarith
    then show False using assms p' by cases auto
  qed
  with p'(2) show ?thesis by simp
qed

lemma setOrder_entries:
  assumes "elems S = map Entry es" "findIndex (map Entry es) k = Inr (int p)"
    "p < length es" "0 \<le> t"
  shows "setOrder S k t
           = Inr (if t = int p then S
                  else store (insert_at (nat t) (es ! p) (remove_at p es)))"
proof -
  let ?xs = "elems S"
  have len: "p < length ?xs" using assms by simp
  have rd: "index_read S (int p) = ?xs ! p" using len by (rule index_read_in_range)
  consider "t < int p" | "t = int p" | "int p < t" by linarith
  then show ?thesis
  proof cases
    case 1
    then have tp: "nat t < p" using assms(4) by linarith
    have "slice ?xs 0 t @ [index_read S (int p)] @ slice ?xs t (int p)
            @ slice_from ?xs (int p + 1)
          = take (nat t) ?xs @ [?xs ! p] @ take (p - nat t) (drop (nat t) ?xs)
            @ drop (Suc p) ?xs"
      using assms(4) 1 by (simp add: slice_nonneg slice_from_nonneg rd nat_add_distrib)
    also have "\<dots> = insert_at (nat t) (?xs ! p) (remove_at p ?xs)"
      using insert_remove_before[OF tp len] by simp
    finally have "slice ?xs 0 t @ [index_read S (int p)] @ slice ?xs t (int p)
            @ slice_from ?xs (int p + 1)
          = map Entry (insert_at (nat t) (es ! p) (remove_at p es))"
      using assms(1,3) by (simp add: insert_at_def remove_at_def take_map drop_map)
    with 1 show ?thesis
      by (simp add: setOrder_def assms(1,2) store_def del: append_assoc)
  next
    case 2
    then show ?thesis by (simp add: setOrder_def assms(1,2))
  next
    case 3
    then have tp: "p < nat t" by linarith
    have "slice ?xs 0 (int p) @ slice ?xs (int p + 1) (t + 1) @ [index_read S (int p)]
            @ slice_from ?xs (t + 1)
          = take p ?xs @ take (nat t - p) (drop (Suc p) ?xs) @ [?xs ! p]
            @ drop (Suc (nat t)) ?xs"
      using assms(4) 3 by (simp add: slice_nonneg slice_from_nonneg rd nat_add_distrib)
    also have "\<dots> = insert_at (nat t) (?xs ! p) (remove_at p ?xs)"
      using insert_remove_after[OF tp len] by simp
    finally have "slice ?xs 0 (int p) @ slice ?xs (int p + 1) (t + 1) @ [index_read S (int p)]
            @ slice_from ?xs (t + 1)
          = map Entry (insert_at (nat t) (es ! p) (remove_at p es))"
      using assms(1,3) by (simp add: insert_at_def remove_at_def take_map drop_map)
    with 3 show ?thesis
      by (simp add: setOrder_def assms(1,2) store_def del: append_assoc)
  qed
qed

lemma setDraggable_absent:
  assumes "elems S = map Entry es" "k \<notin> key ` set es"
  shows "setDraggable S k v
           = Inr \<lparr>elems = elems S, minus1 = spread_draggable (minus1 S) v\<rparr>"
  using assms by (simp add: setDraggable_def findIndex_absent index_read_def)

lemma setDraggable_entries:
  assumes "elems S = map Entry es" "findIndex (map Entry es) k = Inr (int p)"
    "p < length es"
  shows "setDraggable S k v = Inr (store (es[p := (es ! p)\<lparr>draggable := v\<rparr>]))"
  using assms by (simp add: setDraggable_def index_read_def store_def map_update)

lemma insert_at_nth: "t \<le> length ys \<Longrightarrow> insert_at t x ys ! t = x"
  by (simp add: insert_at_def nth_append)

lemma remove_insert_at: "t \<le> length ys \<Longrightarrow> remove_at t (insert_at t x ys) = ys"
  by (simp add: insert_at_def remove_at_def min_def)

lemma length_remove_at: "p < length xs \<Longrightarrow> length (remove_at p xs) = length xs - 1"
  by (simp add: remove_at_def)

lemma remove_at_map: "remove_at p (map f xs) = map f (remove_at p xs)"
  by (simp add: remove_at_def take_map drop_map)

lemma insert_at_map: "insert_at t (f x) (map f xs) = map f (insert_at t x xs)"
  by (simp add: insert_at_def take_map drop_map)


lemma update_first_by_key:
  assumes "distinct (map key es)" "p < length es" "key (es ! p) = k"
  shows "es[p := f (es ! p)] = map (\<lambda>e. if key e = k then f e else e) es"
proof (rule nth_equalityI)
  show "length (es[p := f (es ! p)]) = length (map (\<lambda>e. if key e = k then f e else e) es)"
    by simp
next
  fix i assume "i < length (es[p := f (es ! p)])"
  then have i: "i < length es" by simp
  show "es[p := f (es ! p)] ! i = map (\<lambda>e. if key e = k then f e else e) es ! i"
  proof (cases "i = p")
    case True
    with assms i show ?thesis by simp
  next
    case False
    with assms i have "key (es ! i) \<noteq> k"
      by (metis distinct_conv_nth length_map nth_map)
    with False i show ?thesis by simp
  qed
qed

lemma setDraggable_keys:
  assumes "elems S = map Entry es"
  shows "\<exists>S' es'. setDraggable S k v = Inr S' \<and> elems S' = map Entry es'
           \<and> map key es' = map key es
           \<and> (k \<notin> key ` set es \<longrightarrow> es' = es)
           \<and> (distinct (map key es) \<longrightarrow>
                es' = map (\<lambda>e. if key e = k then e\<lparr>draggable := v\<rparr> else e) es)"
proof (cases "k \<in> key ` set es")
  case False
  have "map (\<lambda>e. if key e = k then e\<lparr>draggable := v\<rparr> else e) es = es"
    using False by (induction es) auto
  with setDraggable_absent[OF assms False, of v] assms show ?thesis by auto
next
  case True
  from findIndex_present[OF True] obtain p where p: "p < length es"
    "findIndex (map Entry es) k = Inr (int p)" "key (es ! p) = k" by blast
  let ?es' = "es[p := (es ! p)\<lparr>draggable := v\<rparr>]"
  have 1: "setDraggable S k v = Inr (store ?es')"
    using assms p(2) p(1) by (rule setDraggable_entries)
  have 2: "map key ?es' = map key es"
    using p(1) by (simp add: map_update list_update_same_conv)
  have 3: "distinct (map key es) \<longrightarrow>
             ?es' = map (\<lambda>e. if key e = k then e\<lparr>draggable := v\<rparr> else e) es"
    using update_first_by_key[of es p k "\<lambda>e. e\<lparr>draggable := v\<rparr>"] p by simp
  have "elems (store ?es') = map Entry ?es'" by (simp add: store_def new_array_def)
  with 1 2 3 True show ?thesis by blast
qed

section \<open>The reduce of \<^verbatim>\<open>allStatus\<close> and the substring test\<close>

lemma status_fold_false: "fst (foldl status_step (False, prev) items) = False"
  by (induction items arbitrary: prev) (simp_all add: status_step_def)

lemma status_fold_some:
  "fst (foldl status_step (True, Some p) items) = (\<forall>x\<in>set items. status x = p)"
proof (induction items arbitrary: p)
  case Nil
  then show ?case by simp
next
  case (Cons item items)
  show ?case
  proof (cases "p = status item")
    case True
    then have "status_step (True, Some p) item = (True, Some p)"
      by (simp add: status_step_def)
    with Cons.IH[of p] True show ?thesis by simp
  next
    case False
    then have "status_step (True, Some p) item = (False, Some (status item))"
      by (simp add: status_step_def)
    with False show ?thesis by (auto simp: status_fold_false)
  qed
qed

lemma startsWith_iff: "startsWith s w = (\<exists>ss. s = w @ ss)"
  by (induction s w rule: startsWith.induct) auto

lemma includes_str_iff: "includes_str s w = (\<exists>ps ss. s = ps @ w @ ss)"
proof (induction s)
  case Nil
  then show ?case by auto
next
  case (Cons d s)
  have "(\<exists>ps ss. d # s = ps @ w @ ss)
          = ((\<exists>ss. d # s = w @ ss) \<or> (\<exists>ps ss. s = ps @ w @ ss))"
  proof
    assume "\<exists>ps ss. d # s = ps @ w @ ss"
    then obtain ps ss where e: "d # s = ps @ w @ ss" by blast
    show "(\<exists>ss. d # s = w @ ss) \<or> (\<exists>ps ss. s = ps @ w @ ss)"
    proof (cases ps)
      case Nil
      with e show ?thesis by auto
    next
      case (Cons a ps')
      with e have "s = ps' @ w @ ss" by simp
      then show ?thesis by blast
    qed
  next
    assume "(\<exists>ss. d # s = w @ ss) \<or> (\<exists>ps ss. s = ps @ w @ ss)"
    then show "\<exists>ps ss. d # s = ps @ w @ ss"
    proof
      assume "\<exists>ss. d # s = w @ ss"
      then obtain ss where "d # s = [] @ w @ ss" by auto
      then show ?thesis by blast
    next
      assume "\<exists>ps ss. s = ps @ w @ ss"
      then obtain ps ss where "d # s = (d # ps) @ w @ ss" by auto
      then show ?thesis by blast
    qed
  qed
  with Cons.IH show ?case by (simp add: startsWith_iff)
qed

lemma ci_substring_iff:
  "ci_substring toLowerCase word desc
     = (\<exists>ps ss. toLowerCase desc = ps @ toLowerCase word @ ss)"
  by (simp add: ci_substring_def includes_str_iff)

lemma by_search_lowercase:
  assumes "\<forall>w\<in>set (words f). toLowerCase w = w"
  shows "by_search toLowerCase f item
           = (\<forall>w\<in>set (words f). ci_substring toLowerCase w (description item))"
  using assms by (simp add: by_search_def ci_substring_def list_all_iff)

section \<open>The invariant of a section\<close>

lemma entry_inv_unfold:
  "elems (ordering st) = map Entry es \<Longrightarrow>
   section_inv st =
     (distinct (map key es)
        \<and> length (filter draggable es) \<le> 1
        \<and> (\<forall>d. dragging st = Some d \<longrightarrow>
              d \<in> key ` set es \<and> (\<forall>e\<in>set es. draggable e \<longrightarrow> key e = d)))"
proof (cases "dragging st")
  case None
  assume "elems (ordering st) = map Entry es"
  with None show ?thesis by (simp add: section_inv_def Let_def)
next
  case (Some d)
  assume "elems (ordering st) = map Entry es"
  moreover have "list_all (\<lambda>e. \<not> draggable e \<or> key e = d) es
                   = (\<forall>e\<in>set es. draggable e \<longrightarrow> key e = d)"
    by (simp only: list_all_iff) blast
  ultimately show ?thesis using Some by (simp add: section_inv_def Let_def)
qed

lemma section_inv_entries:
  "section_inv st \<Longrightarrow> \<exists>es. elems (ordering st) = map Entry es"
proof -
  assume "section_inv st"
  then have "list_all is_entry (elems (ordering st))" by (simp add: section_inv_def)
  then show ?thesis by (rule entries_of_slots)
qed

lemma at_most_one_same:
  assumes "length (filter P xs) \<le> 1" "x \<in> set xs" "P x" "y \<in> set xs" "P y"
  shows "x = y"
proof -
  from assms have "x \<in> set (filter P xs)" "y \<in> set (filter P xs)" by simp_all
  with assms(1) show ?thesis by (cases "filter P xs") auto
qed

lemma filter_key_distinct:
  "distinct (map key es) \<Longrightarrow> length (filter (\<lambda>e. key e = k) es) \<le> 1"
proof (induction es)
  case Nil
  then show ?case by simp
next
  case (Cons e es)
  show ?case
  proof (cases "key e = k")
    case True
    with Cons.prems have "k \<notin> key ` set es" by simp
    then have "\<forall>x\<in>set es. key x \<noteq> k" by (metis imageI)
    then have "filter (\<lambda>e. key e = k) es = []" by (simp add: filter_empty_conv)
    with True show ?thesis by simp
  next
    case False
    with Cons show ?thesis by simp
  qed
qed

lemma arm_count:
  assumes "distinct (map key es)" "\<forall>e\<in>set es. \<not> draggable e"
  shows "length (filter draggable
            (map (\<lambda>e. if key e = k then e\<lparr>draggable := True\<rparr> else e) es)) \<le> 1"
  using assms
proof (induction es)
  case Nil
  then show ?case by simp
next
  case (Cons e es)
  let ?f = "\<lambda>e. if key e = k then e\<lparr>draggable := True\<rparr> else e"
  show ?case
  proof (cases "key e = k")
    case True
    with Cons.prems have "k \<notin> key ` set es" by simp
    then have n: "\<forall>x\<in>set es. key x \<noteq> k" by (metis imageI)
    have "map ?f es = es" using n by (induction es) simp_all
    moreover have "filter draggable es = []"
      using Cons.prems(2) by (simp add: filter_empty_conv)
    ultimately show ?thesis using True by simp
  next
    case False
    moreover from Cons.prems have "\<not> draggable e" by simp
    moreover from Cons have "length (filter draggable (map ?f es)) \<le> 1" by simp
    ultimately show ?thesis by simp
  qed
qed

lemma reset_count:
  "length (filter draggable
      (map (\<lambda>e. if key e = k then e\<lparr>draggable := False\<rparr> else e) es))
     \<le> length (filter draggable es)"
proof (induction es)
  case Nil
  then show ?case by simp
next
  case (Cons e es)
  then show ?case by (cases "key e = k"; cases "draggable e") simp_all
qed

lemma reset_keeps:
  assumes "e \<in> set (map (\<lambda>e. if key e = k then e\<lparr>draggable := False\<rparr> else e) es)"
    and "draggable e"
  shows "e \<in> set es \<and> key e \<noteq> k"
proof -
  from assms(1) obtain x where x: "x \<in> set es"
    "e = (if key x = k then x\<lparr>draggable := False\<rparr> else x)" by (auto simp only: set_map)
  show ?thesis
  proof (cases "key x = k")
    case True
    with x(2) have "\<not> draggable e" by simp
    with assms(2) show ?thesis by simp
  next
    case False
    with x show ?thesis by simp
  qed
qed

lemma map_key_reset:
  "map key (map (\<lambda>e. if key e = k then e\<lparr>draggable := v\<rparr> else e) es) = map key es"
  by (induction es) simp_all

lemma setOrder_permutes:
  assumes "elems S = map Entry es" and "k \<in> key ` set es" and "0 \<le> t"
  shows "\<exists>S' es'. setOrder S k t = Inr S' \<and> elems S' = map Entry es' \<and> mset es' = mset es"
proof -
  from findIndex_present[OF assms(2)] obtain p where p: "p < length es"
    and fi: "findIndex (map Entry es) k = Inr (int p)" by blast
  have so: "setOrder S k t
              = Inr (if t = int p then S
                     else store (insert_at (nat t) (es ! p) (remove_at p es)))"
    using assms(1) fi p assms(3) by (rule setOrder_entries)
  show ?thesis
  proof (cases "t = int p")
    case True
    with so assms(1) show ?thesis by auto
  next
    case False
    let ?es' = "insert_at (nat t) (es ! p) (remove_at p es)"
    have "elems (store ?es') = map Entry ?es'" by (simp add: store_def new_array_def)
    moreover have "mset ?es' = mset es" using p by (rule mset_reinsert)
    moreover have "setOrder S k t = Inr (store ?es')" using so False by simp
    ultimately show ?thesis by blast
  qed
qed

lemma setDraggable_reset:
  assumes "elems S = map Entry es" and "distinct (map key es)"
    and "length (filter draggable es) \<le> 1"
  shows "\<exists>S' es'. setDraggable S k False = Inr S' \<and> elems S' = map Entry es'
           \<and> map key es' = map key es
           \<and> length (filter draggable es') \<le> 1
           \<and> (\<forall>e\<in>set es'. draggable e \<longrightarrow> e \<in> set es \<and> key e \<noteq> k)"
proof -
  let ?es' = "map (\<lambda>e. if key e = k then e\<lparr>draggable := False\<rparr> else e) es"
  from setDraggable_keys[OF assms(1), of k False] obtain S' es' where
    s0: "setDraggable S k False = Inr S'" "elems S' = map Entry es'"
      "distinct (map key es) \<longrightarrow> es' = ?es'" by blast
  from s0(3) assms(2) have "es' = ?es'" by simp
  with s0 have s: "setDraggable S k False = Inr S'" "elems S' = map Entry ?es'" by simp_all
  have "map key ?es' = map key es" by (rule map_key_reset)
  moreover have "length (filter draggable ?es') \<le> 1"
    using reset_count[of k es] assms(3) by linarith
  moreover have "\<forall>e\<in>set ?es'. draggable e \<longrightarrow> e \<in> set es \<and> key e \<noteq> k"
    using reset_keeps[of _ k es] by blast
  ultimately show ?thesis using s by blast
qed

lemma setDraggable_arm:
  assumes "elems S = map Entry es" and "distinct (map key es)"
    and "\<forall>e\<in>set es. \<not> draggable e"
  shows "\<exists>S' es'. setDraggable S k True = Inr S' \<and> elems S' = map Entry es'
           \<and> map key es' = map key es
           \<and> length (filter draggable es') \<le> 1"
proof -
  let ?es' = "map (\<lambda>e. if key e = k then e\<lparr>draggable := True\<rparr> else e) es"
  from setDraggable_keys[OF assms(1), of k True] obtain S' es' where
    s0: "setDraggable S k True = Inr S'" "elems S' = map Entry es'"
      "distinct (map key es) \<longrightarrow> es' = ?es'" by blast
  from s0(3) assms(2) have "es' = ?es'" by simp
  with s0 have s: "setDraggable S k True = Inr S'" "elems S' = map Entry ?es'" by simp_all
  have "map key ?es' = map key es" by (rule map_key_reset)
  moreover have "length (filter draggable ?es') \<le> 1"
    using assms(2,3) by (rule arm_count)
  ultimately show ?thesis using s by blast
qed

lemma reconcile_inv:
  assumes "elems S = map Entry es" and "distinct (map key es)"
    and "distinct (map item_key list)"
  shows "\<exists>S' es'. reconcile S list = Inr S' \<and> elems S' = map Entry es'
           \<and> distinct (map key es')
           \<and> filter draggable es' = filter draggable es
           \<and> set es \<subseteq> set es'"
proof -
  let ?unseen = "filter (\<lambda>item. item_key item \<notin> key ` set es) list"
  let ?new = "map (\<lambda>item. fresh (item_key item)) ?unseen"
  have r: "reconcile S list = Inr (store (es @ ?new))"
    using assms(1) by (rule reconcile_entries)
  have k: "map key ?new = map item_key ?unseen" by (simp add: fresh_def comp_def)
  have "distinct (map item_key ?unseen)" using assms(3) by (rule distinct_map_filter)
  moreover have "set (map key es) \<inter> set (map item_key ?unseen) = {}"
  proof -
    have "x \<notin> set (map key es)" if "x \<in> set (map item_key ?unseen)" for x
    proof -
      from that obtain y where "y \<in> set ?unseen" "x = item_key y"
        by (auto simp only: set_map)
      then show ?thesis by simp
    qed
    then show ?thesis by blast
  qed
  ultimately have "distinct (map key (es @ ?new))"
    using assms(2) by (simp only: map_append distinct_append k)
  moreover have "filter draggable ?new = []" by (simp add: filter_empty_conv fresh_def)
  then have "filter draggable (es @ ?new) = filter draggable es" by simp
  moreover have "elems (store (es @ ?new)) = map Entry (es @ ?new)"
    by (simp add: store_def new_array_def)
  moreover have "set es \<subseteq> set (es @ ?new)" by simp
  ultimately show ?thesis using r by blast
qed

section \<open>Every handler keeps the invariant\<close>

lemma inv_onDragDown:
  assumes "section_inv st" and "enabled st (DragDown k)"
  shows "\<exists>st'. onDragDown st k = Inr st' \<and> section_inv st'"
proof -
  from assms(1) obtain es where E: "elems (ordering st) = map Entry es"
    using section_inv_entries by blast
  from assms(1) have D: "distinct (map key es)"
    by (simp add: entry_inv_unfold[OF E])
  from assms(2) have idle: "dragging st = None" and none: "\<forall>e\<in>set es. \<not> draggable e"
    by (simp_all add: E list_all_iff)
  from setDraggable_arm[OF E D none, of k] obtain S' es' where
    s: "setDraggable (ordering st) k True = Inr S'" "elems S' = map Entry es'"
      "map key es' = map key es" "length (filter draggable es') \<le> 1" by blast
  let ?st' = "st\<lparr>ordering := S'\<rparr>"
  have E': "elems (ordering ?st') = map Entry es'" using s(2) by simp
  have "section_inv ?st'"
    using D s(3,4) idle by (simp add: entry_inv_unfold[OF E'])
  moreover have "onDragDown st k = Inr ?st'" using s(1) by (simp add: onDragDown_def)
  ultimately show ?thesis by blast
qed

lemma inv_reset:
  assumes "section_inv st"
  shows "\<exists>S'. setDraggable (ordering st) k False = Inr S'
           \<and> section_inv (st\<lparr>ordering := S'\<rparr>)
           \<and> section_inv \<lparr>ordering = S', dragging = None\<rparr>
           \<and> (dragging st = Some k \<longrightarrow>
                list_all (\<lambda>e. \<not> draggable e) (slot_entries (elems S')))"
proof -
  from assms(1) obtain es where E: "elems (ordering st) = map Entry es"
    using section_inv_entries by blast
  from assms(1) have D: "distinct (map key es)" and C: "length (filter draggable es) \<le> 1"
    and G: "\<forall>d. dragging st = Some d \<longrightarrow>
              d \<in> key ` set es \<and> (\<forall>e\<in>set es. draggable e \<longrightarrow> key e = d)"
    by (simp_all add: entry_inv_unfold[OF E])
  from setDraggable_reset[OF E D C, of k] obtain S' es' where
    s: "setDraggable (ordering st) k False = Inr S'" "elems S' = map Entry es'"
      "map key es' = map key es" "length (filter draggable es') \<le> 1"
      "\<forall>e\<in>set es'. draggable e \<longrightarrow> e \<in> set es \<and> key e \<noteq> k" by blast
  have ks: "key ` set es' = key ` set es"
    using s(3) by (metis set_map)
  have D': "distinct (map key es')" using D s(3) by simp
  let ?st1 = "st\<lparr>ordering := S'\<rparr>"
  let ?st2 = "\<lparr>ordering = S', dragging = None\<rparr>"
  have E1: "elems (ordering ?st1) = map Entry es'" using s(2) by simp
  have E2: "elems (ordering ?st2) = map Entry es'" using s(2) by simp
  have G': "\<forall>d. dragging st = Some d \<longrightarrow>
              d \<in> key ` set es' \<and> (\<forall>e\<in>set es'. draggable e \<longrightarrow> key e = d)"
    using G s(5) ks by blast
  have 1: "section_inv ?st1"
    using D' s(4) G' by (simp add: entry_inv_unfold[OF E1])
  have 2: "section_inv ?st2"
    using D' s(4) by (simp add: entry_inv_unfold[OF E2])
  have 3: "dragging st = Some k \<longrightarrow> list_all (\<lambda>e. \<not> draggable e) (slot_entries (elems S'))"
  proof
    assume "dragging st = Some k"
    with G have "\<forall>e\<in>set es. draggable e \<longrightarrow> key e = k" by blast
    with s(5) have "\<forall>e\<in>set es'. \<not> draggable e" by blast
    then show "list_all (\<lambda>e. \<not> draggable e) (slot_entries (elems S'))"
      by (simp add: s(2) list_all_iff)
  qed
  from s(1) 1 2 3 show ?thesis by blast
qed

lemma inv_onDragUp:
  assumes "section_inv st"
  shows "\<exists>st'. onDragUp st k = Inr st' \<and> section_inv st'"
proof (cases "truthy (dragging st)")
  case True
  with assms show ?thesis by (simp add: onDragUp_def)
next
  case False
  from inv_reset[OF assms, of k] obtain S' where
    "setDraggable (ordering st) k False = Inr S'" "section_inv (st\<lparr>ordering := S'\<rparr>)"
    by blast
  with False show ?thesis by (simp add: onDragUp_def)
qed

lemma inv_onDragEnd:
  assumes "section_inv st"
  shows "\<exists>st'. onDragEnd st k = Inr st' \<and> section_inv st' \<and> dragging st' = None
           \<and> (dragging st = Some k \<longrightarrow>
                list_all (\<lambda>e. \<not> draggable e) (slot_entries (elems (ordering st'))))"
proof -
  from inv_reset[OF assms, of k] obtain S' where
    s: "setDraggable (ordering st) k False = Inr S'"
      "section_inv \<lparr>ordering = S', dragging = None\<rparr>"
      "dragging st = Some k \<longrightarrow> list_all (\<lambda>e. \<not> draggable e) (slot_entries (elems S'))"
    by blast
  let ?st' = "\<lparr>ordering = S', dragging = None\<rparr>"
  have "onDragEnd st k = Inr ?st'" using s(1) by (simp add: onDragEnd_def)
  moreover have "dragging ?st' = None" by simp
  moreover have "dragging st = Some k \<longrightarrow>
      list_all (\<lambda>e. \<not> draggable e) (slot_entries (elems (ordering ?st')))"
    using s(3) by simp
  ultimately show ?thesis using s(2) by blast
qed

lemma inv_onDragStart:
  assumes "section_inv st" and "enabled st (DragStart k)"
  shows "\<exists>st'. onDragStart st k = Inr st' \<and> section_inv st'"
proof -
  from assms(1) obtain es where E: "elems (ordering st) = map Entry es"
    using section_inv_entries by blast
  from assms(1) have D: "distinct (map key es)" and C: "length (filter draggable es) \<le> 1"
    by (simp_all add: entry_inv_unfold[OF E])
  let ?a = "\<lparr>key = k, draggable = True\<rparr>"
  from assms(2) have a: "?a \<in> set es" by (simp add: E)
  then have "key ?a \<in> key ` set es" by (rule imageI)
  then have kin: "k \<in> key ` set es" by simp
  have only: "\<forall>e\<in>set es. draggable e \<longrightarrow> key e = k"
  proof (intro ballI impI)
    fix e assume "e \<in> set es" "draggable e"
    with C a have "e = ?a" using at_most_one_same[of draggable es e ?a] by simp
    then show "key e = k" by simp
  qed
  let ?st' = "st\<lparr>dragging := Some k\<rparr>"
  have E': "elems (ordering ?st') = map Entry es" using E by simp
  have "section_inv ?st'"
    using D C kin only by (simp add: entry_inv_unfold[OF E'])
  then show ?thesis by (simp add: onDragStart_def)
qed

lemma inv_onDragEnter:
  assumes "section_inv st" and "enabled st (DragEnter j)"
  shows "\<exists>st'. onDragEnter st j = Inr st' \<and> section_inv st'"
proof (cases "dragging st")
  case None
  with assms(1) show ?thesis by (simp add: onDragEnter_def)
next
  case (Some d)
  show ?thesis
  proof (cases "d = 0")
    case True
    with Some assms(1) show ?thesis by (simp add: onDragEnter_def truthy_def)
  next
    case False
    from assms(1) obtain es where E: "elems (ordering st) = map Entry es"
      using section_inv_entries by blast
    from assms(1) Some have D: "distinct (map key es)"
      and C: "length (filter draggable es) \<le> 1"
      and din: "d \<in> key ` set es"
      and only: "\<forall>e\<in>set es. draggable e \<longrightarrow> key e = d"
      by (simp_all add: entry_inv_unfold[OF E])
    from assms(2) have "j \<in> key ` set es" by (simp add: E)
    from findIndex_present[OF this] obtain q where
      q: "findIndex (map Entry es) j = Inr (int q)" by blast
    from setOrder_permutes[OF E din, of "int q"] obtain S' es' where
      s: "setOrder (ordering st) d (int q) = Inr S'" "elems S' = map Entry es'"
        "mset es' = mset es" by auto
    have "mset (map key es') = mset (map key es)" using s(3) by simp
    then have D': "distinct (map key es')" using D by (metis mset_eq_imp_distinct_iff)
    have "mset (filter draggable es') = mset (filter draggable es)"
      using s(3) by simp
    then have "length (filter draggable es') = length (filter draggable es)"
      by (rule mset_eq_length)
    with C have C': "length (filter draggable es') \<le> 1" by simp
    have se: "set es' = set es" using s(3) by (rule mset_eq_setD)
    let ?st' = "st\<lparr>ordering := S'\<rparr>"
    have E': "elems (ordering ?st') = map Entry es'" using s(2) by simp
    have "section_inv ?st'"
      using D' C' din only Some se by (simp add: entry_inv_unfold[OF E'])
    moreover have "onDragEnter st j = Inr ?st'"
      using Some False q s(1) by (simp add: onDragEnter_def truthy_def getOrder_def E)
    ultimately show ?thesis by blast
  qed
qed

lemma inv_onListChange:
  assumes "section_inv st" and "enabled st (ListChange list)"
  shows "\<exists>st'. onListChange st list = Inr st' \<and> section_inv st'"
proof -
  from assms(1) obtain es where E: "elems (ordering st) = map Entry es"
    using section_inv_entries by blast
  from assms(1) have D: "distinct (map key es)" and C: "length (filter draggable es) \<le> 1"
    and G: "\<forall>d. dragging st = Some d \<longrightarrow>
              d \<in> key ` set es \<and> (\<forall>e\<in>set es. draggable e \<longrightarrow> key e = d)"
    by (simp_all add: entry_inv_unfold[OF E])
  from assms(2) have L: "distinct (map item_key list)" by simp
  from reconcile_inv[OF E D L] obtain S' es' where
    s: "reconcile (ordering st) list = Inr S'" "elems S' = map Entry es'"
      "distinct (map key es')" "filter draggable es' = filter draggable es"
      "set es \<subseteq> set es'" by blast
  have dr: "e \<in> set es" if "e \<in> set es'" "draggable e" for e
  proof -
    from that have "e \<in> set (filter draggable es')" by simp
    then have "e \<in> set (filter draggable es)" by (simp only: s(4))
    then show ?thesis by simp
  qed
  have G': "\<forall>d. dragging st = Some d \<longrightarrow>
              d \<in> key ` set es' \<and> (\<forall>e\<in>set es'. draggable e \<longrightarrow> key e = d)"
    using G s(5) dr by blast
  let ?st' = "st\<lparr>ordering := S'\<rparr>"
  have E': "elems (ordering ?st') = map Entry es'" using s(2) by simp
  have "section_inv ?st'"
    using s(3) C G' by (simp add: entry_inv_unfold[OF E'] s(4))
  moreover have "onListChange st list = Inr ?st'" using s(1) by (simp add: onListChange_def)
  ultimately show ?thesis by blast
qed

lemma inv_handle:
  assumes "section_inv st" and "enabled st ev"
  shows "\<exists>st'. handle st ev = Inr st' \<and> section_inv st'"
proof (cases ev)
  case (DragDown k)
  with assms show ?thesis using inv_onDragDown by simp
next
  case (DragUp k)
  with assms show ?thesis using inv_onDragUp by simp
next
  case (DragStart k)
  with assms show ?thesis using inv_onDragStart by simp
next
  case (DragEnter k)
  with assms show ?thesis using inv_onDragEnter by simp
next
  case (DragEnd k)
  with inv_onDragEnd[OF assms(1), of k] show ?thesis by auto
next
  case (ListChange list)
  with assms show ?thesis using inv_onListChange by simp
qed

lemma inv_run:
  "section_inv st \<Longrightarrow> conforms st evs \<Longrightarrow> \<exists>st'. run st evs = Inr st' \<and> section_inv st'"
proof (induction evs arbitrary: st)
  case Nil
  then show ?case by simp
next
  case (Cons ev evs)
  from Cons.prems have en: "enabled st ev" by simp
  from inv_handle[OF Cons.prems(1) en] obtain st1 where
    h: "handle st ev = Inr st1" "section_inv st1" by blast
  with Cons.prems(2) have "conforms st1 evs" by simp
  from Cons.IH[OF h(2) this] obtain st' where "run st1 evs = Inr st'" "section_inv st'"
    by blast
  with h(1) show ?case by simp
qed

lemma conforms_take: "conforms st evs \<Longrightarrow> conforms st (take n evs)"
proof (induction evs arbitrary: st n)
  case Nil
  then show ?case by simp
next
  case (Cons ev evs)
  show ?case
  proof (cases n)
    case 0
    then show ?thesis by simp
  next
    case (Suc m)
    with Cons show ?thesis by (cases "handle st ev") simp_all
  qed
qed

lemma mount_inv:
  assumes "case persisted of None \<Rightarrow> True | Some ks \<Rightarrow> distinct ks"
    and "distinct (map item_key list)"
  shows "\<exists>st. mount persisted list = Inr st \<and> section_inv st \<and> dragging st = None"
proof -
  let ?es = "case persisted of None \<Rightarrow> map fresh (map item_key list)
                             | Some ks \<Rightarrow> map fresh ks"
  let ?st0 = "\<lparr>ordering = init_ordering persisted list, dragging = None\<rparr>"
  have E: "elems (ordering ?st0) = map Entry ?es"
    by (cases persisted)
      (simp_all add: init_ordering_def new_array_def fresh_def comp_def)
  have k: "map key (map fresh ks) = ks" for ks by (induction ks) (simp_all add: fresh_def)
  have D: "distinct (map key ?es)"
  proof (cases persisted)
    case None
    then have "map key ?es = map item_key list" by (simp only: option.case k)
    with assms(2) show ?thesis by simp
  next
    case (Some ks)
    then have "map key ?es = ks" by (simp only: option.case k)
    with assms(1) Some show ?thesis by simp
  qed
  have "filter draggable (map fresh ks) = []" for ks
    by (induction ks) (simp_all add: fresh_def)
  then have C: "filter draggable ?es = []"
    by (cases persisted) (simp_all only: option.case)
  have inv0: "section_inv ?st0"
    using D C by (simp add: entry_inv_unfold[OF E])
  have "enabled ?st0 (ListChange list)" using assms(2) by simp
  from inv_onListChange[OF inv0 this] obtain st' where
    s: "onListChange ?st0 list = Inr st'" "section_inv st'" by blast
  then have "dragging st' = None" by (auto simp: onListChange_def split: sum.splits)
  with s show ?thesis by (auto simp: mount_def)
qed


section \<open>Drag sessions in the order of the user interface\<close>

lemma run_append:
  "run st (xs @ ys) = (case run st xs of Inl e \<Rightarrow> Inl e | Inr st' \<Rightarrow> run st' ys)"
  by (induction xs arbitrary: st) (simp_all split: sum.splits)

lemma conforms_append:
  "conforms st (xs @ ys)
     = (conforms st xs \<and> (case run st xs of Inl e \<Rightarrow> True | Inr st' \<Rightarrow> conforms st' ys))"
  by (induction xs arbitrary: st) (simp_all split: sum.splits)

lemma ordered_take: "ordered a gs \<Longrightarrow> ordered a (take m gs)"
proof (induction gs arbitrary: a m)
  case Nil
  then show ?case by simp
next
  case (Cons g gs)
  then show ?case by (cases m) simp_all
qed

lemma armed_entry:
  assumes "k \<in> key ` set es"
  shows "\<lparr>key = k, draggable = True\<rparr>
           \<in> set (map (\<lambda>e. if key e = k then e\<lparr>draggable := True\<rparr> else e) es)"
proof -
  let ?f = "\<lambda>e. if key e = k then e\<lparr>draggable := True\<rparr> else e"
  from assms obtain e where e: "e \<in> set es" "key e = k" by blast
  have f: "?f e = \<lparr>key = k, draggable = True\<rparr>"
    using e(2) by (cases e) simp
  from e(1) have "?f e \<in> ?f ` set es" by (rule imageI)
  then have "\<lparr>key = k, draggable = True\<rparr> \<in> ?f ` set es" by (simp only: f)
  then show ?thesis by (simp only: set_map)
qed

lemma begin_step:
  assumes "section_inv st" and "dragging st = None"
    and "list_all (\<lambda>e. \<not> draggable e) (slot_entries (elems (ordering st)))"
    and "k \<in> set (slot_keys (elems (ordering st)))"
  shows "\<exists>st1 st2. enabled st (DragDown k) \<and> onDragDown st k = Inr st1
           \<and> enabled st1 (DragStart k) \<and> onDragStart st1 k = Inr st2
           \<and> section_inv st2 \<and> dragging st2 = Some k
           \<and> set (slot_keys (elems (ordering st2))) = set (slot_keys (elems (ordering st)))"
proof -
  from assms(1) obtain es where E: "elems (ordering st) = map Entry es"
    using section_inv_entries by blast
  from assms(1) have D: "distinct (map key es)"
    by (simp add: entry_inv_unfold[OF E])
  from assms(3) have none: "\<forall>e\<in>set es. \<not> draggable e" by (simp add: E list_all_iff)
  from assms(4) have kin: "k \<in> key ` set es" by (simp add: E)
  define es2 where "es2 = map (\<lambda>e. if key e = k then e\<lparr>draggable := True\<rparr> else e) es"
  from setDraggable_keys[OF E, of k True] obtain S' es' where
    s0: "setDraggable (ordering st) k True = Inr S'" "elems S' = map Entry es'"
      "distinct (map key es) \<longrightarrow> es' = es2" unfolding es2_def by blast
  from s0(3) D have "es' = es2" by simp
  with s0(2) have el: "elems S' = map Entry es2" by simp
  have keys: "map key es2 = map key es" unfolding es2_def by (rule map_key_reset)
  have cnt: "length (filter draggable es2) \<le> 1"
    unfolding es2_def using D none by (rule arm_count)
  have armed: "\<lparr>key = k, draggable = True\<rparr> \<in> set es2"
    unfolding es2_def using kin by (rule armed_entry)
  let ?st1 = "st\<lparr>ordering := S'\<rparr>"
  let ?st2 = "?st1\<lparr>dragging := Some k\<rparr>"
  have E1: "elems (ordering ?st1) = map Entry es2" using el by simp
  have inv1: "section_inv ?st1"
    using D keys cnt assms(2) by (simp add: entry_inv_unfold[OF E1])
  have en0: "enabled st (DragDown k)" using assms(2,3) by simp
  have r1: "onDragDown st k = Inr ?st1" using s0(1) by (simp add: onDragDown_def)
  have en1: "enabled ?st1 (DragStart k)" using armed by (simp add: el)
  from inv_onDragStart[OF inv1 en1] have inv2: "section_inv ?st2"
    by (simp add: onDragStart_def)
  have r2: "onDragStart ?st1 k = Inr ?st2" by (simp add: onDragStart_def)
  have ks: "set (slot_keys (elems (ordering ?st2))) = set (slot_keys (elems (ordering st)))"
    using keys by (simp add: el E)
  have "dragging ?st2 = Some k" by simp
  with en0 r1 en1 r2 inv2 ks show ?thesis by blast
qed

lemma enter_step:
  assumes "section_inv st" and "j \<in> set (slot_keys (elems (ordering st)))"
  shows "\<exists>st'. onDragEnter st j = Inr st' \<and> section_inv st'
           \<and> dragging st' = dragging st
           \<and> set (slot_keys (elems (ordering st'))) = set (slot_keys (elems (ordering st)))
           \<and> (dragging st = None \<longrightarrow> st' = st)"
proof (cases "dragging st")
  case None
  with assms(1) show ?thesis by (simp add: onDragEnter_def)
next
  case (Some d)
  show ?thesis
  proof (cases "d = 0")
    case True
    with Some assms(1) show ?thesis by (simp add: onDragEnter_def truthy_def)
  next
    case False
    from assms(1) obtain es where E: "elems (ordering st) = map Entry es"
      using section_inv_entries by blast
    from assms(1) Some have D: "distinct (map key es)"
      and C: "length (filter draggable es) \<le> 1"
      and din: "d \<in> key ` set es"
      and only: "\<forall>e\<in>set es. draggable e \<longrightarrow> key e = d"
      by (simp_all add: entry_inv_unfold[OF E])
    from assms(2) have "j \<in> key ` set es" by (simp add: E)
    from findIndex_present[OF this] obtain q where
      q: "findIndex (map Entry es) j = Inr (int q)" by blast
    from setOrder_permutes[OF E din, of "int q"] obtain S' es' where
      s: "setOrder (ordering st) d (int q) = Inr S'" "elems S' = map Entry es'"
        "mset es' = mset es" by auto
    have mk: "mset (map key es') = mset (map key es)" using s(3) by simp
    then have D': "distinct (map key es')" using D by (metis mset_eq_imp_distinct_iff)
    have "mset (filter draggable es') = mset (filter draggable es)"
      using s(3) by simp
    then have "length (filter draggable es') = length (filter draggable es)"
      by (rule mset_eq_length)
    with C have C': "length (filter draggable es') \<le> 1" by simp
    have se: "set es' = set es" using s(3) by (rule mset_eq_setD)
    let ?st' = "st\<lparr>ordering := S'\<rparr>"
    have E': "elems (ordering ?st') = map Entry es'" using s(2) by simp
    have inv': "section_inv ?st'"
      using D' C' din only Some se by (simp add: entry_inv_unfold[OF E'])
    have r: "onDragEnter st j = Inr ?st'"
      using Some False q s(1) by (simp add: onDragEnter_def truthy_def getOrder_def E)
    have ks: "set (slot_keys (elems (ordering ?st'))) = set (slot_keys (elems (ordering st)))"
      using se by (simp add: s(2) E)
    have "dragging ?st' = dragging st" by simp
    with r inv' ks Some show ?thesis by auto
  qed
qed

lemma end_step:
  assumes "section_inv st"
  shows "\<exists>st'. onDragEnd st k = Inr st' \<and> section_inv st' \<and> dragging st' = None
           \<and> set (slot_keys (elems (ordering st'))) = set (slot_keys (elems (ordering st)))
           \<and> (dragging st = Some k
                \<or> list_all (\<lambda>e. \<not> draggable e) (slot_entries (elems (ordering st)))
               \<longrightarrow> list_all (\<lambda>e. \<not> draggable e) (slot_entries (elems (ordering st'))))"
proof -
  from assms(1) obtain es where E: "elems (ordering st) = map Entry es"
    using section_inv_entries by blast
  from assms(1) have D: "distinct (map key es)" and C: "length (filter draggable es) \<le> 1"
    and G: "\<forall>d. dragging st = Some d \<longrightarrow> (\<forall>e\<in>set es. draggable e \<longrightarrow> key e = d)"
    by (simp_all add: entry_inv_unfold[OF E])
  from setDraggable_reset[OF E D C, of k] obtain S' es' where
    s: "setDraggable (ordering st) k False = Inr S'" "elems S' = map Entry es'"
      "map key es' = map key es" "length (filter draggable es') \<le> 1"
      "\<forall>e\<in>set es'. draggable e \<longrightarrow> e \<in> set es \<and> key e \<noteq> k" by blast
  let ?st' = "\<lparr>ordering = S', dragging = None\<rparr>"
  have E': "elems (ordering ?st') = map Entry es'" using s(2) by simp
  have inv': "section_inv ?st'"
    using D s(3,4) by (simp add: entry_inv_unfold[OF E'])
  have r: "onDragEnd st k = Inr ?st'" using s(1) by (simp add: onDragEnd_def)
  have ks: "set (slot_keys (elems (ordering ?st'))) = set (slot_keys (elems (ordering st)))"
    using s(3) by (simp add: s(2) E)
  have clr: "dragging st = Some k
                \<or> list_all (\<lambda>e. \<not> draggable e) (slot_entries (elems (ordering st)))
               \<longrightarrow> list_all (\<lambda>e. \<not> draggable e) (slot_entries (elems (ordering ?st')))"
  proof
    assume "dragging st = Some k
              \<or> list_all (\<lambda>e. \<not> draggable e) (slot_entries (elems (ordering st)))"
    then have "\<forall>e\<in>set es. draggable e \<longrightarrow> key e = k"
      using G by (auto simp: E list_all_iff)
    with s(5) have "\<forall>e\<in>set es'. \<not> draggable e" by blast
    then show "list_all (\<lambda>e. \<not> draggable e) (slot_entries (elems (ordering ?st')))"
      by (simp add: s(2) list_all_iff)
  qed
  have "dragging ?st' = None" by simp
  with r inv' ks clr show ?thesis by blast
qed

lemma gesture_step:
  assumes "agrees a st" and "allowed a g"
    and "gesture_row g \<in> set (slot_keys (elems (ordering st)))"
  shows "\<exists>st'. run st (gesture_events g :: 'c event list) = Inr st' \<and> conforms st (gesture_events g :: 'c event list)
           \<and> agrees (after_gesture a g) st'
           \<and> set (slot_keys (elems (ordering st'))) = set (slot_keys (elems (ordering st)))"
proof (cases g)
  case (BeginDrag k)
  with assms(2) have a: "a = None" by (cases a) simp_all
  from assms(1) a have inv: "section_inv st" and idle: "dragging st = None"
    and none: "list_all (\<lambda>e. \<not> draggable e) (slot_entries (elems (ordering st)))"
    by (simp_all add: agrees_def)
  from assms(3) BeginDrag have "k \<in> set (slot_keys (elems (ordering st)))" by simp
  from begin_step[OF inv idle none this] obtain st1 st2 where
    s: "enabled st (DragDown k)" "onDragDown st k = Inr st1"
      "enabled st1 (DragStart k)" "onDragStart st1 k = Inr st2"
      "section_inv st2" "dragging st2 = Some k"
      "set (slot_keys (elems (ordering st2))) = set (slot_keys (elems (ordering st)))"
    by blast
  have "agrees (Some k) st2" using s(5,6) by (simp add: agrees_def)
  with s BeginDrag show ?thesis by simp
next
  case (EnterRow j)
  from assms(1) have inv: "section_inv st" and da: "dragging st = a"
    by (simp_all add: agrees_def)
  from assms(3) EnterRow have jin: "j \<in> set (slot_keys (elems (ordering st)))" by simp
  from enter_step[OF inv jin] obtain st' where
    s: "onDragEnter st j = Inr st'" "section_inv st'" "dragging st' = dragging st"
      "set (slot_keys (elems (ordering st'))) = set (slot_keys (elems (ordering st)))"
      "dragging st = None \<longrightarrow> st' = st" by (elim exE conjE)
  have "agrees a st'"
  proof (cases a)
    case None
    with da s(5) have "st' = st" by simp
    with assms(1) show ?thesis by simp
  next
    case (Some d)
    with s(2,3) da show ?thesis by (simp add: agrees_def)
  qed
  with s(1,4) jin EnterRow show ?thesis by simp
next
  case (EndDrag k)
  from assms(1) have inv: "section_inv st" and da: "dragging st = a"
    and none: "a = None \<longrightarrow>
      list_all (\<lambda>e. \<not> draggable e) (slot_entries (elems (ordering st)))"
    by (simp_all add: agrees_def)
  from end_step[OF inv, of k] obtain st' where
    s: "onDragEnd st k = Inr st'" "section_inv st'" "dragging st' = None"
      "set (slot_keys (elems (ordering st'))) = set (slot_keys (elems (ordering st)))"
      "dragging st = Some k
         \<or> list_all (\<lambda>e. \<not> draggable e) (slot_entries (elems (ordering st)))
       \<longrightarrow> list_all (\<lambda>e. \<not> draggable e) (slot_entries (elems (ordering st')))" by blast
  have "dragging st = Some k
         \<or> list_all (\<lambda>e. \<not> draggable e) (slot_entries (elems (ordering st)))"
  proof (cases a)
    case None
    with none show ?thesis by simp
  next
    case (Some d)
    with assms(2) EndDrag have "k = d" by simp
    with Some da show ?thesis by simp
  qed
  with s(5) have "list_all (\<lambda>e. \<not> draggable e) (slot_entries (elems (ordering st')))"
    by blast
  with s(2,3) have "agrees None st'" by (simp add: agrees_def)
  with s(1,4) EndDrag show ?thesis by simp
qed

lemma gestures_run:
  assumes "agrees a st" and "ordered a gs"
    and "\<forall>g\<in>set gs. gesture_row g \<in> set (slot_keys (elems (ordering st)))"
  shows "conforms st (session_events gs :: 'c event list)
         \<and> (\<exists>st'. run st (session_events gs :: 'c event list) = Inr st'
               \<and> agrees (foldl after_gesture a gs) st')"
  using assms
proof (induction gs arbitrary: a st)
  case Nil
  then show ?case by (simp add: session_events_def)
next
  case (Cons g gs)
  from Cons.prems(2) have al: "allowed a g" and rest: "ordered (after_gesture a g) gs"
    by simp_all
  from Cons.prems(3) have row: "gesture_row g \<in> set (slot_keys (elems (ordering st)))"
    by simp
  from gesture_step[OF Cons.prems(1) al row] obtain st1 where
    s: "run st (gesture_events g :: 'c event list) = Inr st1" "conforms st (gesture_events g :: 'c event list)"
      "agrees (after_gesture a g) st1"
      "set (slot_keys (elems (ordering st1))) = set (slot_keys (elems (ordering st)))"
    by blast
  from Cons.prems(3) s(4)
  have rows: "\<forall>g\<in>set gs. gesture_row g \<in> set (slot_keys (elems (ordering st1)))"
    by simp
  from Cons.IH[OF s(3) rest rows] obtain st' where
    t: "conforms st1 (session_events gs :: 'c event list)" "run st1 (session_events gs :: 'c event list) = Inr st'"
      "agrees (foldl after_gesture (after_gesture a g) gs) st'" by blast
  have e: "(session_events (g # gs) :: 'c event list)
             = gesture_events g @ session_events gs"
    by (simp add: session_events_def)
  have "conforms st (session_events (g # gs) :: 'c event list)"
    using s(1,2) t(1) by (simp only: e conforms_append) simp
  moreover have "run st (session_events (g # gs) :: 'c event list) = Inr st'"
    using s(1) t(2) by (simp only: e run_append) simp
  ultimately show ?case using t(3) by simp
qed

section \<open>The rendered rows of a store of entries\<close>




lemma mount_idle:
  assumes "case persisted of None \<Rightarrow> True | Some ks \<Rightarrow> distinct ks"
    and "distinct (map item_key list)"
  shows "\<exists>st. mount persisted list = Inr st \<and> agrees None st"
proof -
  define es where "es = (case persisted of None \<Rightarrow> map fresh (map item_key list)
                                          | Some ks \<Rightarrow> map fresh ks)"
  let ?st0 = "\<lparr>ordering = init_ordering persisted list, dragging = None\<rparr>"
  have E: "elems (init_ordering persisted list) = map Entry es"
    unfolding es_def
    by (cases persisted)
      (simp_all add: init_ordering_def new_array_def fresh_def comp_def)
  have k: "map key (map fresh ks) = ks" for ks by (induction ks) (simp_all add: fresh_def)
  have D: "distinct (map key es)"
  proof (cases persisted)
    case None
    then have "map key es = map item_key list" unfolding es_def by (simp only: option.case k)
    with assms(2) show ?thesis by simp
  next
    case (Some ks)
    then have "map key es = ks" unfolding es_def by (simp only: option.case k)
    with assms(1) Some show ?thesis by simp
  qed
  have "filter draggable (map fresh ks) = []" for ks
    by (induction ks) (simp_all add: fresh_def)
  then have C: "filter draggable es = []"
    unfolding es_def by (cases persisted) (simp_all only: option.case)
  from reconcile_inv[OF E D assms(2)] obtain S' es' where
    s: "reconcile (init_ordering persisted list) list = Inr S'" "elems S' = map Entry es'"
      "distinct (map key es')" "filter draggable es' = filter draggable es" by blast
  let ?st = "\<lparr>ordering = S', dragging = None\<rparr>"
  have E': "elems (ordering ?st) = map Entry es'" using s(2) by simp
  have none: "filter draggable es' = []" using s(4) C by simp
  then have "\<forall>e\<in>set es'. \<not> draggable e" by (simp add: filter_empty_conv)
  then have n: "list_all (\<lambda>e. \<not> draggable e) (slot_entries (elems (ordering ?st)))"
    by (simp add: s(2) list_all_iff)
  have "section_inv ?st" using s(3) none by (simp add: entry_inv_unfold[OF E'])
  with n have "agrees None ?st" by (simp add: agrees_def)
  moreover have "mount persisted list = Inr ?st"
    using s(1) by (simp add: mount_def onListChange_def)
  ultimately show ?thesis by blast
qed

text \<open>
  A pointer that goes down on a row and is released away from it, so that no drag starts
  and \<^verbatim>\<open>onDragUp\<close> does not run, is no event of a drag session. The handlers keep the
  flag of each such row.
\<close>

lemma pointer_down_twice:
  "run \<lparr>ordering = store [fresh 1, fresh 2], dragging = None\<rparr>
     ([DragDown 1, DragDown 2] :: char event list)
   = Inr \<lparr>ordering = store [\<lparr>key = 1, draggable = True\<rparr>, \<lparr>key = 2, draggable = True\<rparr>],
          dragging = None\<rparr>"
  by code_simp

section \<open>The claims\<close>

text \<open>
  C1. Reconcile only appends: on a store whose slots hold the entries \<open>es\<close>, the
  reconciliation with an item list does not fail, and the new sequence is the old one
  followed by one fresh entry (\<open>draggable = False\<close>) for each key of the list that is not
  a key of the store, in the order of the list. So the old sequence is a prefix of the
  new one, and no entry is removed.
\<close>

theorem reconcile_only_appends:
  assumes "elems S = map Entry es"
  shows "\<exists>S'. reconcile S list = Inr S'
           \<and> elems S' = elems S
                @ map Entry (map fresh (filter (\<lambda>k. k \<notin> set (map key es)) (map item_key list)))
           \<and> take (length (elems S)) (elems S') = elems S
           \<and> set (elems S) \<subseteq> set (elems S')"
  using assms by (simp add: reconcile_entries store_def new_array_def filter_map comp_def)

theorem reconcile_only_appends_witness:
  "reconcile (store [fresh 3, fresh 1, fresh 2])
     [\<lparr>item_key = 5, item_order = 0, description = ''a'', status = False, labels = []\<rparr>,
      \<lparr>item_key = 1, item_order = 1, description = ''b'', status = False, labels = []\<rparr>,
      \<lparr>item_key = 4, item_order = 2, description = ''c'', status = True, labels = [red]\<rparr>]
   = Inr (store [fresh 3, fresh 1, fresh 2, fresh 5, fresh 4])"
  using reconcile_only_appends[of "store [fresh 3, fresh 1, fresh 2]" "[fresh 3, fresh 1, fresh 2]"
     "[\<lparr>item_key = 5, item_order = 0, description = ''a'', status = False, labels = []\<rparr>,
      \<lparr>item_key = 1, item_order = 1, description = ''b'', status = False, labels = []\<rparr>,
      \<lparr>item_key = 4, item_order = 2, description = ''c'', status = True, labels = [red]\<rparr>]"]
  by (auto simp: store_def new_array_def fresh_def reconcile_def)

text \<open>
  C2. Reconcile is idempotent: on a store whose slots hold entries, reconciling with a
  list and then with the same list again gives the array of the first reconciliation.
\<close>

theorem reconcile_idempotent:
  assumes "elems S = map Entry es"
  shows "\<exists>S'. reconcile S list = Inr S' \<and> reconcile S' list = Inr S'"
proof -
  let ?new = "map (\<lambda>item. fresh (item_key item))
                (filter (\<lambda>item. item_key item \<notin> key ` set es) list)"
  let ?S' = "store (es @ ?new)"
  have 1: "reconcile S list = Inr ?S'" using assms by (rule reconcile_entries)
  have e: "elems ?S' = map Entry (es @ ?new)" by (simp add: store_def new_array_def)
  have "item_key item \<in> key ` set (es @ ?new)" if "item \<in> set list" for item
  proof (cases "item_key item \<in> key ` set es")
    case True
    then show ?thesis by auto
  next
    case False
    with that have "fresh (item_key item) \<in> set ?new" by auto
    then have "key (fresh (item_key item)) \<in> key ` set ?new" by (rule imageI)
    moreover have "key (fresh (item_key item)) = item_key item" by (simp add: fresh_def)
    ultimately have "item_key item \<in> key ` set ?new" by simp
    then show ?thesis by (simp only: set_append image_Un Un_iff) simp
  qed
  then have "filter (\<lambda>item. item_key item \<notin> key ` set (es @ ?new)) list = []"
    by (simp add: filter_empty_conv)
  with reconcile_entries[OF e, of list] have "reconcile ?S' list = Inr ?S'"
    by simp
  with 1 show ?thesis by blast
qed

theorem reconcile_idempotent_witness:
  "reconcile (store [fresh 3, fresh 1])
     [\<lparr>item_key = 1, item_order = 0, description = ''a'', status = False, labels = []\<rparr>,
      \<lparr>item_key = 7, item_order = 1, description = ''b'', status = False, labels = []\<rparr>]
     = Inr (store [fresh 3, fresh 1, fresh 7])
   \<and> reconcile (store [fresh 3, fresh 1, fresh 7])
     [\<lparr>item_key = 1, item_order = 0, description = ''a'', status = False, labels = []\<rparr>,
      \<lparr>item_key = 7, item_order = 1, description = ''b'', status = False, labels = []\<rparr>]
     = Inr (store [fresh 3, fresh 1, fresh 7])"
  using reconcile_idempotent[of "store [fresh 3, fresh 1]" "[fresh 3, fresh 1]"
     "[\<lparr>item_key = 1, item_order = 0, description = ''a'', status = False, labels = []\<rparr>,
      \<lparr>item_key = 7, item_order = 1, description = ''b'', status = False, labels = []\<rparr>]"]
  by (auto simp: store_def new_array_def fresh_def reconcile_def)

text \<open>
  C3. Move is a single-element reinsertion: in a store whose slots hold the entries
  \<open>es\<close>, let \<open>p\<close> be the position of the identifier \<open>k\<close> (its first position,
  which is its only one when identifiers are unique) and \<open>t\<close> a position of the
  sequence. Then \<^verbatim>\<open>setOrder(k, t)\<close> does not fail, and the new sequence is the old one
  with the entry taken out of position \<open>p\<close> and put back at position \<open>t\<close>: the entry
  stands at \<open>t\<close>, and the other entries are the old ones in their old order. When
  \<open>t = p\<close> the array is left as it is. Seeding from the natural order \<open>[3, 1, 2]\<close>
  and reconciling with \<open>[3, 1, 2, 5]\<close> gives \<open>[3, 1, 2, 5]\<close>, and moving \<open>2\<close> to
  position \<open>0\<close> then gives \<open>[2, 3, 1, 5]\<close>.
\<close>

theorem setOrder_single_move:
  assumes "elems S = map Entry es"
    and "p < length es" and "key (es ! p) = k" and "\<forall>q<p. key (es ! q) \<noteq> k"
    and "t < length es"
  shows "(\<exists>S'. setOrder S k (int t) = Inr S'
            \<and> elems S' = map Entry (insert_at t (es ! p) (remove_at p es))
            \<and> elems S' ! t = Entry (es ! p)
            \<and> remove_at t (elems S') = map Entry (remove_at p es)
            \<and> (t = p \<longrightarrow> S' = S))
         \<and> reconcile (init_ordering None
               [\<lparr>item_key = 3, item_order = 0, description = ''c'', status = False, labels = []\<rparr>,
                \<lparr>item_key = 1, item_order = 1, description = ''a'', status = False, labels = []\<rparr>,
                \<lparr>item_key = 2, item_order = 2, description = ''b'', status = False, labels = []\<rparr>])
               [\<lparr>item_key = 3, item_order = 0, description = ''c'', status = False, labels = []\<rparr>,
                \<lparr>item_key = 1, item_order = 1, description = ''a'', status = False, labels = []\<rparr>,
                \<lparr>item_key = 2, item_order = 2, description = ''b'', status = False, labels = []\<rparr>,
                \<lparr>item_key = 5, item_order = 3, description = ''e'', status = False, labels = []\<rparr>]
             = Inr (store (map fresh [3, 1, 2, 5]))
         \<and> setOrder (store (map fresh [3, 1, 2, 5])) 2 0 = Inr (store (map fresh [2, 3, 1, 5]))"
proof (intro conjI)
  have fi: "findIndex (map Entry es) k = Inr (int p)"
    using assms(2,3,4) by (rule findIndex_first)
  let ?ys = "remove_at p es"
  let ?S' = "if int t = int p then S else store (insert_at t (es ! p) ?ys)"
  have so: "setOrder S k (int t) = Inr ?S'"
    using setOrder_entries[OF assms(1) fi assms(2), of "int t"] by simp
  have tl: "t \<le> length ?ys" using assms(2,5) by (simp add: length_remove_at)
  have el: "elems ?S' = map Entry (insert_at t (es ! p) ?ys)"
    using assms(1,2) by (simp add: store_def new_array_def insert_remove_same)
  have "elems ?S' ! t = Entry (es ! p)"
    using tl by (simp only: el insert_at_map[symmetric]) (simp add: insert_at_nth)
  moreover have "remove_at t (elems ?S') = map Entry ?ys"
    using tl by (simp only: el insert_at_map[symmetric]) (simp add: remove_insert_at)
  moreover have "t = p \<longrightarrow> ?S' = S" by simp
  ultimately show "\<exists>S'. setOrder S k (int t) = Inr S'
            \<and> elems S' = map Entry (insert_at t (es ! p) (remove_at p es))
            \<and> elems S' ! t = Entry (es ! p)
            \<and> remove_at t (elems S') = map Entry (remove_at p es)
            \<and> (t = p \<longrightarrow> S' = S)"
    using so el by blast
next
  show "reconcile (init_ordering None
               [\<lparr>item_key = 3, item_order = 0, description = ''c'', status = False, labels = []\<rparr>,
                \<lparr>item_key = 1, item_order = 1, description = ''a'', status = False, labels = []\<rparr>,
                \<lparr>item_key = 2, item_order = 2, description = ''b'', status = False, labels = []\<rparr>])
               [\<lparr>item_key = 3, item_order = 0, description = ''c'', status = False, labels = []\<rparr>,
                \<lparr>item_key = 1, item_order = 1, description = ''a'', status = False, labels = []\<rparr>,
                \<lparr>item_key = 2, item_order = 2, description = ''b'', status = False, labels = []\<rparr>,
                \<lparr>item_key = 5, item_order = 3, description = ''e'', status = False, labels = []\<rparr>]
             = Inr (store (map fresh [3, 1, 2, 5]))"
    by (simp add: reconcile_def init_ordering_def new_array_def store_def fresh_def)
next
  show "setOrder (store (map fresh [3, 1, 2, 5])) 2 0 = Inr (store (map fresh [2, 3, 1, 5]))"
    by (simp add: setOrder_def findIndex_def store_def new_array_def fresh_def slice_def
        slice_from_def rel_index_def index_read_def)
qed

theorem setOrder_single_move_witness:
  "\<exists>S'. setOrder (store [fresh 3, fresh 1, fresh 2, fresh 5]) 1 3 = Inr S'
      \<and> elems S' = map Entry [fresh 3, fresh 2, fresh 5, fresh 1]"
proof -
  let ?es = "[fresh 3, fresh 1, fresh 2, fresh 5]"
  have h1: "elems (store ?es) = map Entry ?es" by (simp add: store_def new_array_def)
  have h2: "(1::nat) < length ?es" by simp
  have h3: "key (?es ! 1) = 1" by (simp add: fresh_def)
  have h4: "\<forall>q<1::nat. key (?es ! q) \<noteq> 1" by (simp add: fresh_def)
  have h5: "(3::nat) < length ?es" by simp
  from setOrder_single_move[OF h1 h2 h3 h4 h5]
  obtain S' where "setOrder (store ?es) 1 (int 3) = Inr S'"
    "elems S' = map Entry (insert_at 3 (?es ! 1) (remove_at 1 ?es))" by blast
  then show ?thesis by (simp add: insert_at_def remove_at_def)
qed




text \<open>
  C5. At most one entry is draggable during drag sessions whose events come in the order
  of the user interface. The section starts idle (no drag recorded, no entry draggable)
  with unique identifiers, as a mounted section does; the events are begin-drag,
  drag-enter and drag-end on rows of the store; a drag begins only after the drag before
  it has ended, and a drag ends on the dragged row. Then no handler fails, and after
  every handler call at most one entry has \<open>draggable = True\<close>, and while a drag is
  recorded an entry that is draggable is the dragged one. After every event
  \<^verbatim>\<open>dragging\<close> is the drag under way, and once it is \<^verbatim>\<open>null\<close> again (after a drag end)
  no entry is draggable: the flag of the dragged row has been reset. No handler resets
  the flag of a row when another row begins to drag.
\<close>

theorem drag_protocol_single_draggable:
  fixes gs :: "gesture list"
  assumes "elems (ordering st) = map Entry es" and "distinct (map key es)"
    and "\<forall>e\<in>set es. \<not> draggable e" and "dragging st = None"
    and "ordered None gs" and "\<forall>g\<in>set gs. gesture_row g \<in> key ` set es"
  shows "(\<forall>n. \<exists>st'. run st (take n (session_events gs :: 'c event list)) = Inr st'
            \<and> list_all is_entry (elems (ordering st'))
            \<and> length (filter draggable (slot_entries (elems (ordering st')))) \<le> 1
            \<and> (\<forall>d. dragging st' = Some d \<longrightarrow>
                  (\<forall>e\<in>set (slot_entries (elems (ordering st'))). draggable e \<longrightarrow> key e = d)))
         \<and> (\<forall>m. \<exists>st'. run st (session_events (take m gs) :: 'c event list) = Inr st'
            \<and> dragging st' = foldl after_gesture None (take m gs)
            \<and> (dragging st' = None \<longrightarrow>
                  list_all (\<lambda>e. \<not> draggable e) (slot_entries (elems (ordering st')))))"
proof (intro conjI allI)
  have inv: "section_inv st"
    using assms(2,3,4) by (simp add: entry_inv_unfold[OF assms(1)] filter_empty_conv[THEN iffD2])
  have ag: "agrees None st"
    using inv assms(3,4) by (simp add: agrees_def assms(1) list_all_iff)
  have rows: "\<forall>g\<in>set gs. gesture_row g \<in> set (slot_keys (elems (ordering st)))"
    using assms(6) by (simp add: assms(1))
  {
    fix n
    from gestures_run[OF ag assms(5) rows]
    have "conforms st (session_events gs :: 'c event list)" by blast
    then have "conforms st (take n (session_events gs :: 'c event list))"
      by (rule conforms_take)
    from inv_run[OF inv this] obtain st' where
      r: "run st (take n (session_events gs :: 'c event list)) = Inr st'"
      and inv': "section_inv st'" by blast
    from inv' obtain es' where E': "elems (ordering st') = map Entry es'"
      using section_inv_entries by blast
    from inv' have "length (filter draggable es') \<le> 1"
      and "\<forall>d. dragging st' = Some d \<longrightarrow> (\<forall>e\<in>set es'. draggable e \<longrightarrow> key e = d)"
      by (simp_all add: entry_inv_unfold[OF E'])
    with r E' show "\<exists>st'. run st (take n (session_events gs :: 'c event list)) = Inr st'
            \<and> list_all is_entry (elems (ordering st'))
            \<and> length (filter draggable (slot_entries (elems (ordering st')))) \<le> 1
            \<and> (\<forall>d. dragging st' = Some d \<longrightarrow>
                  (\<forall>e\<in>set (slot_entries (elems (ordering st'))). draggable e \<longrightarrow> key e = d))"
      by (intro exI[of _ st']) simp
  }
  {
    fix m
    from assms(5) have o: "ordered None (take m gs)" by (rule ordered_take)
    have "\<forall>g\<in>set (take m gs). gesture_row g \<in> set (slot_keys (elems (ordering st)))"
      using rows by (meson in_set_takeD)
    from gestures_run[OF ag o this] obtain st' where
      r: "run st (session_events (take m gs) :: 'c event list) = Inr st'"
      and a: "agrees (foldl after_gesture None (take m gs)) st'" by blast
    from a have "dragging st' = foldl after_gesture None (take m gs)"
      and "dragging st' = None \<longrightarrow>
             list_all (\<lambda>e. \<not> draggable e) (slot_entries (elems (ordering st')))"
      by (auto simp: agrees_def)
    with r show "\<exists>st'. run st (session_events (take m gs) :: 'c event list) = Inr st'
            \<and> dragging st' = foldl after_gesture None (take m gs)
            \<and> (dragging st' = None \<longrightarrow>
                  list_all (\<lambda>e. \<not> draggable e) (slot_entries (elems (ordering st'))))"
      by (intro exI[of _ st']) simp
  }
qed

theorem drag_protocol_single_draggable_witness:
  "(\<exists>st'. run \<lparr>ordering = store [fresh 1, fresh 2, fresh 3], dragging = None\<rparr>
             ([DragDown 1, DragStart 1, DragEnter 3] :: char event list) = Inr st'
       \<and> length (filter draggable (slot_entries (elems (ordering st')))) \<le> 1)
   \<and> (\<exists>st'. run \<lparr>ordering = store [fresh 1, fresh 2, fresh 3], dragging = None\<rparr>
             ([DragDown 1, DragStart 1, DragEnter 3, DragEnd 1] :: char event list) = Inr st'
       \<and> dragging st' = None
       \<and> list_all (\<lambda>e. \<not> draggable e) (slot_entries (elems (ordering st'))))"
proof -
  let ?es = "[fresh 1, fresh 2, fresh 3]"
  let ?st = "\<lparr>ordering = store ?es, dragging = None\<rparr>"
  let ?gs = "[BeginDrag 1, EnterRow 3, EndDrag 1, BeginDrag 2, EnterRow 1, EndDrag 2]"
  have h1: "elems (ordering ?st) = map Entry ?es" by (simp add: store_def new_array_def)
  have h2: "distinct (map key ?es)" by (simp add: fresh_def)
  have h3: "\<forall>e\<in>set ?es. \<not> draggable e" by (simp add: fresh_def)
  have h4: "dragging ?st = None" by simp
  have h5: "ordered None ?gs" by simp
  have h6: "\<forall>g\<in>set ?gs. gesture_row g \<in> key ` set ?es" by (simp add: fresh_def)
  note t = drag_protocol_single_draggable[OF h1 h2 h3 h4 h5 h6, where 'c = char]
  from t have "\<exists>st'. run ?st (take 3 (session_events ?gs :: char event list)) = Inr st'
            \<and> list_all is_entry (elems (ordering st'))
            \<and> length (filter draggable (slot_entries (elems (ordering st')))) \<le> 1
            \<and> (\<forall>d. dragging st' = Some d \<longrightarrow>
                  (\<forall>e\<in>set (slot_entries (elems (ordering st'))). draggable e \<longrightarrow> key e = d))"
    by blast
  moreover have "take 3 (session_events ?gs :: char event list)
                   = [DragDown 1, DragStart 1, DragEnter 3]"
    by (simp add: session_events_def)
  ultimately have 1: "\<exists>st'. run ?st ([DragDown 1, DragStart 1, DragEnter 3] :: char event list)
                               = Inr st'
       \<and> length (filter draggable (slot_entries (elems (ordering st')))) \<le> 1"
    by (simp only:) blast
  from t have "\<exists>st'. run ?st (session_events (take 3 ?gs) :: char event list) = Inr st'
            \<and> dragging st' = foldl after_gesture None (take 3 ?gs)
            \<and> (dragging st' = None \<longrightarrow>
                  list_all (\<lambda>e. \<not> draggable e) (slot_entries (elems (ordering st'))))"
    by blast
  moreover have "(session_events (take 3 ?gs) :: char event list)
                   = [DragDown 1, DragStart 1, DragEnter 3, DragEnd 1]"
    by (simp add: session_events_def)
  moreover have "foldl after_gesture None (take 3 ?gs) = None" by simp
  ultimately have 2: "\<exists>st'. run ?st
         ([DragDown 1, DragStart 1, DragEnter 3, DragEnd 1] :: char event list) = Inr st'
       \<and> dragging st' = None
       \<and> list_all (\<lambda>e. \<not> draggable e) (slot_entries (elems (ordering st')))"
    by (simp only:) blast
  from 1 2 show ?thesis by (rule conjI)
qed

theorem drag_protocol_single_draggable_counterexample:
  "run \<lparr>ordering = store [fresh 1, fresh 2], dragging = None\<rparr>
     (session_events [BeginDrag 1, BeginDrag 2] :: char event list)
   = Inr \<lparr>ordering = store [\<lparr>key = 1, draggable = True\<rparr>, \<lparr>key = 2, draggable = True\<rparr>],
          dragging = Some 2\<rparr>
   \<and> run \<lparr>ordering = store [fresh 1, fresh 2], dragging = None\<rparr>
     (session_events [BeginDrag 1, EndDrag 2, BeginDrag 2] :: char event list)
   = Inr \<lparr>ordering = store [\<lparr>key = 1, draggable = True\<rparr>, \<lparr>key = 2, draggable = True\<rparr>],
          dragging = Some 2\<rparr>"
  by code_simp

text \<open>
  C6. The filter is conjunctive and keeps the order. The search words are lower-case
  strings, as the contract of the filter types them: \<^verbatim>\<open>toLowerCase\<close> leaves each of them
  as it is. Then, whatever \<^verbatim>\<open>toLowerCase\<close> does to the other strings, \<^verbatim>\<open>filtered\<close> is
  the list of the items, in the order of the input, for which the label of the filter
  is unset or among the labels of the item, and every search word is a
  case-insensitive substring of the description. On the items "buy milk" (no label) and
  "buy bread" (label red), two descriptions that \<^verbatim>\<open>toLowerCase\<close> leaves as they are, the
  words \<open>[buy]\<close> with the label red give the second item only.
\<close>

theorem filtered_conjunctive:
  assumes "\<forall>w\<in>set (words f). toLowerCase w = w"
  shows "filtered toLowerCase list f
           = filter (\<lambda>item. (label f = None \<or> (\<exists>l. label f = Some l \<and> l \<in> set (labels item)))
                            \<and> (\<forall>w\<in>set (words f).
                                  ci_substring toLowerCase w (description item))) list
         \<and> (lc ''buy milk'' = ''buy milk'' \<longrightarrow> lc ''buy bread'' = ''buy bread'' \<longrightarrow>
            filtered lc
             [\<lparr>item_key = 1, item_order = 0, description = ''buy milk'', status = False, labels = []\<rparr>,
              \<lparr>item_key = 2, item_order = 1, description = ''buy bread'', status = False, labels = [red]\<rparr>]
             \<lparr>words = [''buy''], label = Some red\<rparr>
           = [\<lparr>item_key = 2, item_order = 1, description = ''buy bread'', status = False, labels = [red]\<rparr>])"
proof (intro conjI impI)
  have l: "by_label f item
             = (label f = None \<or> (\<exists>l. label f = Some l \<and> l \<in> set (labels item)))" for item
    by (cases "label f") (simp_all add: by_label_def)
  have "filtered toLowerCase list f
          = filter (\<lambda>item. by_label f item \<and> by_search toLowerCase f item) list"
    by (simp add: filtered_def conj_commute)
  then show "filtered toLowerCase list f
           = filter (\<lambda>item. (label f = None \<or> (\<exists>l. label f = Some l \<and> l \<in> set (labels item)))
                            \<and> (\<forall>w\<in>set (words f).
                                  ci_substring toLowerCase w (description item))) list"
    by (simp only: l by_search_lowercase[OF assms])
next
  assume lc: "lc ''buy milk'' = ''buy milk''" "lc ''buy bread'' = ''buy bread''"
  have "includes_str ''buy bread'' ''buy''" by code_simp
  with lc show "filtered lc
             [\<lparr>item_key = 1, item_order = 0, description = ''buy milk'', status = False, labels = []\<rparr>,
              \<lparr>item_key = 2, item_order = 1, description = ''buy bread'', status = False, labels = [red]\<rparr>]
             \<lparr>words = [''buy''], label = Some red\<rparr>
           = [\<lparr>item_key = 2, item_order = 1, description = ''buy bread'', status = False, labels = [red]\<rparr>]"
    by (simp add: filtered_def by_label_def by_search_def del: includes_str.simps)
qed

theorem filtered_conjunctive_witness:
  "filtered ascii_toLowerCase
     [\<lparr>item_key = 1, item_order = 0, description = ''Buy MILK'', status = False, labels = [red, blue]\<rparr>,
      \<lparr>item_key = 2, item_order = 1, description = ''buy bread'', status = True, labels = [blue]\<rparr>,
      \<lparr>item_key = 3, item_order = 2, description = ''Milk, buy'', status = False, labels = [blue]\<rparr>]
     \<lparr>words = [''buy'', ''milk''], label = Some blue\<rparr>
   = [\<lparr>item_key = 1, item_order = 0, description = ''Buy MILK'', status = False, labels = [red, blue]\<rparr>,
      \<lparr>item_key = 3, item_order = 2, description = ''Milk, buy'', status = False, labels = [blue]\<rparr>]"
proof -
  let ?f = "\<lparr>words = [''buy'', ''milk''], label = Some blue\<rparr>"
  have h: "\<forall>w\<in>set (words ?f). ascii_toLowerCase w = w"
    by code_simp
  have c: "ci_substring ascii_toLowerCase ''buy'' ''Buy MILK''"
    "ci_substring ascii_toLowerCase ''milk'' ''Buy MILK''"
    "\<not> ci_substring ascii_toLowerCase ''milk'' ''buy bread''"
    "ci_substring ascii_toLowerCase ''buy'' ''Milk, buy''"
    "ci_substring ascii_toLowerCase ''milk'' ''Milk, buy''"
    by code_simp+
  from filtered_conjunctive[OF h] show ?thesis
    by (simp add: c)
qed




text \<open>
  C8. The uniform-completion signal: \<^verbatim>\<open>allStatus\<close> is true exactly when all items of
  the filtered list have the same \<^verbatim>\<open>status\<close>; for the empty list it is true.
\<close>

theorem allStatus_uniform:
  "allStatus items = (\<forall>x\<in>set items. \<forall>y\<in>set items. status x = status y)
   \<and> allStatus [] = True"
proof (intro conjI)
  show "allStatus items = (\<forall>x\<in>set items. \<forall>y\<in>set items. status x = status y)"
  proof (cases items)
    case Nil
    then show ?thesis by (simp add: allStatus_def)
  next
    case (Cons item rest)
    have "status_step (True, None) item = (True, Some (status item))"
      by (simp add: status_step_def)
    then have "allStatus items = (\<forall>x\<in>set rest. status x = status item)"
      by (simp add: allStatus_def Cons status_fold_some)
    also have "\<dots> = (\<forall>x\<in>set items. \<forall>y\<in>set items. status x = status y)"
      using Cons by auto
    finally show ?thesis .
  qed
next
  show "allStatus [] = True" by (simp add: allStatus_def)
qed

theorem allStatus_uniform_witness:
  "allStatus
     [\<lparr>item_key = 1, item_order = 0, description = ''a'', status = True, labels = []\<rparr>,
      \<lparr>item_key = 2, item_order = 1, description = ''b'', status = False, labels = [blue]\<rparr>,
      \<lparr>item_key = 3, item_order = 2, description = ''c'', status = True, labels = []\<rparr>] = False
   \<and> allStatus
     [\<lparr>item_key = 1, item_order = 0, description = ''a'', status = True, labels = []\<rparr>,
      \<lparr>item_key = 3, item_order = 2, description = ''c'', status = True, labels = []\<rparr>] = True"
  using allStatus_uniform[of
     "[\<lparr>item_key = 1, item_order = 0, description = ''a'', status = True, labels = []\<rparr>,
      \<lparr>item_key = 2, item_order = 1, description = ''b'', status = False, labels = [blue]\<rparr>,
      \<lparr>item_key = 3, item_order = 2, description = ''c'', status = True, labels = []\<rparr>]"]
    allStatus_uniform[of
     "[\<lparr>item_key = 1, item_order = 0, description = ''a'', status = True, labels = []\<rparr>,
      \<lparr>item_key = 3, item_order = 2, description = ''c'', status = True, labels = []\<rparr>]"]
  by auto

text \<open>
  C9. Initialisation seeding: when a persisted key sequence is present (also an empty
  one), the ordering is seeded from it, so its identifier sequence is the persisted
  one; when none is present, the ordering is seeded from the keys of the item list in
  their arrival order. In both cases every slot holds an entry and no entry is
  draggable.
\<close>

theorem init_ordering_seeds:
  "init_ordering (Some persisted) list = store (map fresh persisted)
   \<and> slot_keys (elems (init_ordering (Some persisted) list)) = persisted
   \<and> init_ordering None list = store (map fresh (map item_key list))
   \<and> slot_keys (elems (init_ordering None list)) = map item_key list
   \<and> list_all is_entry (elems (init_ordering persisted_opt list))
   \<and> filter draggable (slot_entries (elems (init_ordering persisted_opt list))) = []"
proof -
  have k: "map key (map fresh ks) = ks" for ks
    by (induction ks) (simp_all add: fresh_def)
  have d: "filter draggable (map fresh ks) = []" for ks
    by (induction ks) (simp_all add: fresh_def)
  have 1: "init_ordering (Some persisted) list = store (map fresh persisted)"
    by (simp add: init_ordering_def store_def fresh_def comp_def)
  have 2: "init_ordering None list = store (map fresh (map item_key list))"
    by (simp add: init_ordering_def store_def fresh_def comp_def)
  have e: "elems (store es) = map Entry es" for es
    by (simp add: store_def new_array_def)
  have 3: "slot_keys (elems (init_ordering (Some persisted) list)) = persisted"
    by (simp only: 1 e slot_keys_entries k)
  have 4: "slot_keys (elems (init_ordering None list)) = map item_key list"
    by (simp only: 2 e slot_keys_entries k)
  have 5: "list_all is_entry (elems (init_ordering persisted_opt list))
           \<and> filter draggable (slot_entries (elems (init_ordering persisted_opt list))) = []"
  proof (cases persisted_opt)
    case None
    then show ?thesis by (simp only: 2 e all_entries slot_entries_entries d)
  next
    case (Some ks)
    have "init_ordering (Some ks) list = store (map fresh ks)"
      by (simp add: init_ordering_def store_def fresh_def comp_def)
    with Some show ?thesis by (simp only: e all_entries slot_entries_entries d)
  qed
  from 1 2 3 4 5 show ?thesis by blast
qed

text \<open>
  C10. A drag-enter while no drag is recorded (\<^verbatim>\<open>dragging\<close> is \<^verbatim>\<open>null\<close>) leaves the
  whole state of the section, and so the order store, as it is: the body of
  \<^verbatim>\<open>if (dragging)\<close> is the only call of \<^verbatim>\<open>setOrder\<close>.
\<close>

theorem onDragEnter_idle_unchanged:
  assumes "dragging st = None"
  shows "onDragEnter st k = Inr st \<and> handle st (DragEnter k) = Inr st"
  using assms by (simp add: onDragEnter_def)

theorem onDragEnter_idle_unchanged_witness:
  "onDragEnter \<lparr>ordering = store [fresh 3, fresh 1], dragging = None\<rparr> 1
     = Inr \<lparr>ordering = store [fresh 3, fresh 1], dragging = None\<rparr>"
  using onDragEnter_idle_unchanged[of "\<lparr>ordering = store [fresh 3, fresh 1], dragging = None\<rparr>" 1]
  by simp

end
